theory Spec2Isabelle
  imports Complex_Main "HOL-Library.AList"
begin

section \<open>JavaScript values as the hooks see them\<close>

text \<open>
  The chat hooks receive loosely typed data (\<^verbatim>\<open>any\<close>): whatever \<^verbatim>\<open>JSON.parse\<close> returns.
  A parsed value is a \<open>json\<close>; a JavaScript value that may also be \<^verbatim>\<open>undefined\<close> is a
  \<open>jsval\<close>, with \<open>None\<close> for \<^verbatim>\<open>undefined\<close>. Numbers are rationals (every finite double is
  one; the hooks only test a number for being zero).
  Strings are lists of code units below 256. An object is an association list in key
  insertion order.
\<close>

datatype json =
    JNull
  | JBool bool
  | JNum rat
  | JStr string
  | JArr "json list"
  | JObj "(string \<times> json) list"

type_synonym jsval = "json option"

text \<open>Every \<^verbatim>\<open>throw\<close>/rejection the modelled code can meet.\<close>

datatype error =
    TypeError       \<comment> \<open>property read on \<^verbatim>\<open>null\<close> or \<^verbatim>\<open>undefined\<close>\<close>
  | SyntaxError     \<comment> \<open>\<^verbatim>\<open>JSON.parse\<close> / \<^verbatim>\<open>response.json()\<close> on malformed text\<close>
  | NetworkError    \<comment> \<open>\<^verbatim>\<open>fetch\<close> or \<^verbatim>\<open>reader.read()\<close> rejects\<close>
  | HttpError       \<comment> \<open>\<^verbatim>\<open>!response.ok\<close>\<close>
  | NoBody          \<comment> \<open>\<^verbatim>\<open>new Error('No response body')\<close>\<close>
  | InvalidStateError  \<comment> \<open>\<^verbatim>\<open>ws.send\<close> on a socket that is still connecting\<close>

text \<open>\<^verbatim>\<open>if (v)\<close>, \<^verbatim>\<open>!v\<close>, \<^verbatim>\<open>v || d\<close>: JavaScript truthiness.\<close>

fun truthy :: "jsval \<Rightarrow> bool" where
  "truthy None = False"
| "truthy (Some JNull) = False"
| "truthy (Some (JBool b)) = b"
| "truthy (Some (JNum n)) = (n \<noteq> 0)"
| "truthy (Some (JStr s)) = (s \<noteq> [])"
| "truthy (Some (JArr xs)) = True"
| "truthy (Some (JObj kvs)) = True"

text \<open>
  \<^verbatim>\<open>v.k\<close> on a value that is neither \<^verbatim>\<open>null\<close> nor \<^verbatim>\<open>undefined\<close>. The keys the hooks read
  (\<^verbatim>\<open>agent\<close>, \<^verbatim>\<open>content\<close>, \<^verbatim>\<open>type\<close>, \<^verbatim>\<open>data\<close>, ...) are own properties of objects only; on
  numbers, booleans, strings and arrays they are \<^verbatim>\<open>undefined\<close>. Should a key occur twice
  in the list of an object, its last entry is the property's value (as in \<^verbatim>\<open>JSON.parse\<close>).
\<close>

fun field :: "json \<Rightarrow> string \<Rightarrow> jsval" where
  "field (JObj kvs) k = map_of (rev kvs) k"
| "field _ k = None"

text \<open>\<^verbatim>\<open>v.k\<close> in general: a TypeError on \<^verbatim>\<open>null\<close> and \<^verbatim>\<open>undefined\<close>.\<close>

fun get_prop :: "jsval \<Rightarrow> string \<Rightarrow> error + jsval" where
  "get_prop None k = Inl TypeError"
| "get_prop (Some JNull) k = Inl TypeError"
| "get_prop (Some j) k = Inr (field j k)"

text \<open>
  \<^verbatim>\<open>a === b\<close>. Primitives compare by value. Objects and arrays compare by reference; the
  two sides of every \<^verbatim>\<open>===\<close> in the hooks come from different \<^verbatim>\<open>JSON.parse\<close> calls, so
  two objects are never the same reference.
\<close>

fun strict_eq :: "jsval \<Rightarrow> jsval \<Rightarrow> bool" where
  "strict_eq None None = True"
| "strict_eq (Some JNull) (Some JNull) = True"
| "strict_eq (Some (JBool a)) (Some (JBool b)) = (a = b)"
| "strict_eq (Some (JNum a)) (Some (JNum b)) = (a = b)"
| "strict_eq (Some (JStr a)) (Some (JStr b)) = (a = b)"
| "strict_eq _ _ = False"

text \<open>Decimal rendering of an array index, as a property key.\<close>

fun dec :: "nat \<Rightarrow> string" where
  "dec n = (if n < 10 then [''0123456789'' ! n]
            else dec (n div 10) @ [''0123456789'' ! (n mod 10)])"

text \<open>
  The own enumerable properties that object spread copies: all of an object's, the
  indexed elements of an array, the indexed characters of a string, nothing otherwise
  (spreading \<^verbatim>\<open>null\<close>, \<^verbatim>\<open>undefined\<close>, a number or a boolean copies nothing).
\<close>

fun own_props :: "jsval \<Rightarrow> (string \<times> json) list" where
  "own_props (Some (JObj kvs)) = kvs"
| "own_props (Some (JArr xs)) = zip (map dec [0..<length xs]) xs"
| "own_props (Some (JStr s)) = zip (map dec [0..<length s]) (map (\<lambda>c. JStr [c]) s)"
| "own_props _ = []"

text \<open>
  Assigning properties one by one: an existing key keeps its place, a new one goes last.
  (JavaScript enumerates integer-like keys first; the order of the keys bears on no
  property read.)
\<close>

fun assign_all :: "(string \<times> json) list \<Rightarrow> (string \<times> json) list \<Rightarrow> (string \<times> json) list" where
  "assign_all target [] = target"
| "assign_all target ((k, v) # src) = assign_all (AList.update k v target) src"

text \<open>\<^verbatim>\<open>{ ...s, ...c }\<close>\<close>

definition spread2 :: "jsval \<Rightarrow> jsval \<Rightarrow> json" where
  "spread2 s c = JObj (assign_all (assign_all [] (own_props s)) (own_props c))"

section \<open>Strings\<close>

text \<open>The white space \<^verbatim>\<open>String.prototype.trim\<close> removes, among code units below 256.\<close>

definition is_ws :: "char \<Rightarrow> bool" where
  "is_ws c = (c \<in> set [CHR 0x09, CHR 0x0A, CHR 0x0B, CHR 0x0C, CHR 0x0D, CHR 0x20, CHR 0xA0])"

definition trim :: "string \<Rightarrow> string" where
  "trim s = rev (dropWhile is_ws (rev (dropWhile is_ws s)))"

definition startsWith :: "string \<Rightarrow> string \<Rightarrow> bool" where
  "startsWith s p = (take (length p) s = p)"

text \<open>\<^verbatim>\<open>s.split('\n')\<close>: always at least one piece.\<close>

fun split_nl :: "string \<Rightarrow> string list" where
  "split_nl [] = [[]]"
| "split_nl (c # cs) =
     (if c = CHR 0x0A then [] # split_nl cs
      else (case split_nl cs of [] \<Rightarrow> [[c]] | l # ls \<Rightarrow> (c # l) # ls))"

section \<open>The chunked HTTP stream parser: \<^verbatim>\<open>NexusAPI.chatStream\<close> (lib/api.ts)\<close>

text \<open>
  \<^verbatim>\<open>JSON.parse\<close> is a built-in of the platform; it is a parameter \<open>parse\<close> of the model,
  returning \<open>None\<close> where it throws a SyntaxError. The body of a response is the list of
  text pieces that \<^verbatim>\<open>decoder.decode(value, { stream: true })\<close> hands to the loop, one per
  \<^verbatim>\<open>reader.read()\<close>, and how the reading ends.
\<close>

type_synonym parser = "string \<Rightarrow> json option"

datatype stream_end = StreamDone | StreamError

record http_response =
  ok :: bool
  body :: "(string list \<times> stream_end) option"

text \<open>
  One line of the inner \<^verbatim>\<open>for\<close> loop:
  \<^verbatim>\<open>if (line.startsWith('data:')) { try { yield JSON.parse(line.slice(5).trim()) } catch {} }\<close>
\<close>

definition parse_line :: "parser \<Rightarrow> string \<Rightarrow> json list" where
  "parse_line parse line =
     (if startsWith line ''data:''
      then (case parse (trim (drop 5 line)) of Some d \<Rightarrow> [d] | None \<Rightarrow> [])
      else [])"

text \<open>
  The \<^verbatim>\<open>while (true)\<close> loop, with the buffer as an argument: append the chunk, split,
  pop the last piece back into the buffer (\<^verbatim>\<open>lines.pop() || ''\<close>), parse the others.
  When the reader is done the loop breaks and the buffer is dropped.
\<close>

fun read_loop :: "parser \<Rightarrow> string \<Rightarrow> string list \<Rightarrow> json list" where
  "read_loop parse buffer [] = []"
| "read_loop parse buffer (v # vs) =
     (let lines = split_nl (buffer @ v)
      in concat (map (parse_line parse) (butlast lines)) @ read_loop parse (last lines) vs)"

text \<open>
  The generator: the values it yields, in order, and the error it ends with, if any.
  \<open>Inl e\<close> as the response is a rejected \<^verbatim>\<open>fetch\<close>.
\<close>

definition chatStream :: "parser \<Rightarrow> error + http_response \<Rightarrow> json list \<times> error option" where
  "chatStream parse r =
     (case r of
        Inl e \<Rightarrow> ([], Some e)
      | Inr response \<Rightarrow>
          if \<not> ok response then ([], Some HttpError)
          else (case body response of
                  None \<Rightarrow> ([], Some NoBody)
                | Some (chunks, fin) \<Rightarrow>
                    (read_loop parse [] chunks,
                     case fin of StreamDone \<Rightarrow> None | StreamError \<Rightarrow> Some NetworkError)))"

section \<open>The step list reducer shared by the three chat front ends\<close>

text \<open>
  The same updater is written out three times in the source (use-chat.ts 72-80 and
  178-186, the home page 137-145):
  \<^verbatim>\<open>
  (prev) => {
      const existing = prev.find((s) => s.agent === c.agent);
      if (existing) return prev.map((s) => s.agent === c.agent ? { ...s, ...c } : s);
      return [...prev, c];
  }\<close>
  \<open>a\<close> is the outcome of evaluating \<^verbatim>\<open>c.agent\<close>, which happens inside the callbacks,
  after \<^verbatim>\<open>s.agent\<close>. React runs the updater after the code that set it, while
  rendering; setting and running are one step of the model. A throw of the updater
  surfaces there, outside any \<^verbatim>\<open>try\<close> around the setter. It can come about in the
  socket dispatcher only, which passes \<^verbatim>\<open>data.data\<close> on unchecked; in both HTTP readers
  the list holds objects and the chunk is one, and the updater does not throw
  (\<open>upsert_step_objects\<close>).
\<close>

fun find_step :: "jsval list \<Rightarrow> error + jsval \<Rightarrow> error + jsval" where
  "find_step [] a = Inr None"
| "find_step (s # prev) a =
     (case get_prop s ''agent'' of
        Inl e \<Rightarrow> Inl e
      | Inr sa \<Rightarrow>
          (case a of
             Inl e \<Rightarrow> Inl e
           | Inr ca \<Rightarrow> if strict_eq sa ca then Inr s else find_step prev a))"

fun map_steps :: "jsval list \<Rightarrow> error + jsval \<Rightarrow> jsval \<Rightarrow> error + jsval list" where
  "map_steps [] a c = Inr []"
| "map_steps (s # prev) a c =
     (case get_prop s ''agent'' of
        Inl e \<Rightarrow> Inl e
      | Inr sa \<Rightarrow>
          (case a of
             Inl e \<Rightarrow> Inl e
           | Inr ca \<Rightarrow>
               (case map_steps prev a c of
                  Inl e \<Rightarrow> Inl e
                | Inr rest \<Rightarrow> Inr ((if strict_eq sa ca then Some (spread2 s c) else s) # rest))))"

definition upsert_step :: "jsval \<Rightarrow> jsval list \<Rightarrow> error + jsval list" where
  "upsert_step c prev =
     (case find_step prev (get_prop c ''agent'') of
        Inl e \<Rightarrow> Inl e
      | Inr existing \<Rightarrow>
          if truthy existing then map_steps prev (get_prop c ''agent'') c
          else Inr (prev @ [c]))"

section \<open>Messages and the state the chat front ends keep\<close>

datatype role = user | assistant

text \<open>
  \<^verbatim>\<open>interface Message\<close>. \<open>msg_id\<close> is the number whose decimal rendering is the id
  (\<^verbatim>\<open>Date.now().toString()\<close>); \<open>timestamp\<close> is the clock reading of \<^verbatim>\<open>new Date()\<close>,
  taken as the same reading as the adjacent \<^verbatim>\<open>Date.now()\<close>. The fields filled from
  parsed data hold whatever was received; an absent optional field is \<open>None\<close>.
\<close>

record Message =
  msg_id :: int
  role :: role
  content :: jsval
  timestamp :: int
  data :: jsval
  executionTrace :: "json list option"
  processingTime :: jsval

text \<open>The \<^verbatim>\<open>useState\<close> cells common to \<^verbatim>\<open>useChat\<close>, \<^verbatim>\<open>useWebSocketChat\<close> and the home page.\<close>

record chat_state =
  messages :: "Message list"
  isLoading :: bool
  currentSteps :: "jsval list"

record http_state = chat_state +
  conversationId :: jsval

text \<open>What a front end does to the outside: requests, callbacks, notifications.\<close>

datatype effect =
    FetchStream jsval jsval   \<comment> \<open>the POST of \<^verbatim>\<open>{ message, conversation_id, stream: true }\<close>\<close>
  | OnStepUpdate json         \<comment> \<open>\<^verbatim>\<open>options.onStepUpdate?.(chunk)\<close>\<close>
  | OnError error             \<comment> \<open>\<^verbatim>\<open>options.onError?.(err)\<close>\<close>
  | WsSend jsval jsval        \<comment> \<open>\<^verbatim>\<open>ws.send(JSON.stringify({ message, conversation_id }))\<close>\<close>
  | ConsoleError
  | ToastSuccess jsval
  | ToastError
  | RenderError error         \<comment> \<open>a state updater throws when React runs it, while rendering\<close>

definition userMessage :: "int \<Rightarrow> string \<Rightarrow> Message" where
  "userMessage now text =
     \<lparr> msg_id = now, role = user, content = Some (JStr (trim text)), timestamp = now,
       data = None, executionTrace = None, processingTime = None \<rparr>"

section \<open>\<^verbatim>\<open>useChat\<close> (hooks/use-chat.ts): the HTTP streaming reducer\<close>

text \<open>The locals of the \<^verbatim>\<open>try\<close> block together with the state cells the loop sets.\<close>

record turn =
  steps :: "jsval list"
  convId :: jsval
  newConversationId :: jsval
  assistantContent :: jsval
  responseData :: jsval
  trace :: "json list"
  procTime :: jsval
  emitted :: "effect list"

text \<open>
  The body of the \<^verbatim>\<open>for await\<close> loop for one yielded chunk. The first property read,
  \<^verbatim>\<open>chunk.conversation_id\<close>, throws on \<^verbatim>\<open>null\<close>; what was set before a throw stays set, so
  the result is the locals as they stand and the error, if any. The branch for a throw
  of the step updater is there for totality: the loop never takes it
  (\<open>for_await_never_throws_in_updater\<close>).
\<close>

definition chunk_step :: "json \<Rightarrow> turn \<Rightarrow> turn \<times> error option" where
  "chunk_step chunk t =
     (case get_prop (Some chunk) ''conversation_id'' of
        Inl e \<Rightarrow> (t, Some e)
      | Inr cid \<Rightarrow>
          let t1 = (if truthy cid \<and> \<not> truthy (newConversationId t)
                    then t\<lparr> newConversationId := cid, convId := cid \<rparr> else t);
              r2 = (if truthy (field chunk ''agent'')
                    then (case upsert_step (Some chunk) (steps t1) of
                            Inl e \<Rightarrow> Inl e
                          | Inr steps' \<Rightarrow>
                              Inr (t1\<lparr> steps := steps', trace := trace t1 @ [chunk],
                                      emitted := emitted t1 @ [OnStepUpdate chunk] \<rparr>))
                    else Inr t1)
          in (case r2 of
                Inl e \<Rightarrow> (t1, Some e)
              | Inr t2 \<Rightarrow>
                  let t3 = (if field chunk ''content'' \<noteq> None
                            then t2\<lparr> assistantContent := field chunk ''content'' \<rparr> else t2);
                      t4 = (if truthy (field chunk ''response_type'')
                            then t3\<lparr> responseData := Some chunk \<rparr> else t3);
                      t5 = (if truthy (field chunk ''processing_time_ms'')
                            then t4\<lparr> procTime := field chunk ''processing_time_ms'' \<rparr> else t4)
                  in (t5, None)))"

text \<open>The loop over the yielded chunks stops at the first throw of its body.\<close>

fun for_await :: "json list \<Rightarrow> turn \<Rightarrow> turn \<times> error option" where
  "for_await [] t = (t, None)"
| "for_await (c # cs) t =
     (case chunk_step c t of
        (t', Some e) \<Rightarrow> (t', Some e)
      | (t', None) \<Rightarrow> for_await cs t')"

text \<open>The locals at the top of the \<^verbatim>\<open>try\<close> block, after \<^verbatim>\<open>setCurrentSteps([])\<close>.\<close>

definition turn_start :: "jsval \<Rightarrow> turn" where
  "turn_start cid =
     \<lparr> steps = [], convId = cid, newConversationId = cid,
       assistantContent = Some (JStr []), responseData = Some JNull, trace = [],
       procTime = Some (JNum 0), emitted = [] \<rparr>"

text \<open>
  The consumer and the generator together: the chunks the generator yields are consumed
  in order; the loop ends with an error when its body throws or, after the last yielded
  chunk, when the generator itself throws.
\<close>

definition run_stream :: "json list \<times> error option \<Rightarrow> turn \<Rightarrow> turn \<times> error option" where
  "run_stream gen t =
     (case for_await (fst gen) t of
        (t', Some e) \<Rightarrow> (t', Some e)
      | (t', None) \<Rightarrow> (t', snd gen))"

text \<open>\<^verbatim>\<open>assistantContent || 'I processed your request.'\<close>\<close>

definition or_default :: "jsval \<Rightarrow> jsval" where
  "or_default c = (if truthy c then c else Some (JStr ''I processed your request.''))"

definition assistantMessage :: "int \<Rightarrow> turn \<Rightarrow> Message" where
  "assistantMessage now t =
     \<lparr> msg_id = now + 1, role = assistant, content = or_default (assistantContent t),
       timestamp = now, data = responseData t, executionTrace = Some (trace t),
       processingTime = procTime t \<rparr>"

text \<open>
  \<^verbatim>\<open>sendMessage\<close>. \<open>t0\<close> and \<open>t1\<close> are the clock readings for the two messages, \<open>r\<close> is what
  the network does with the request. The result is the state once the promise settles,
  the effects in order, and the error the promise rejects with, if any.
\<close>

definition sendMessage ::
  "parser \<Rightarrow> int \<Rightarrow> int \<Rightarrow> error + http_response \<Rightarrow> string \<Rightarrow> http_state
     \<Rightarrow> http_state \<times> effect list \<times> error option" where
  "sendMessage parse t0 t1 r text st =
     (if trim text = [] \<or> isLoading st then (st, [], None)
      else
        let st1 = st\<lparr> messages := messages st @ [userMessage t0 text], isLoading := True,
                      currentSteps := [] \<rparr>;
            request = FetchStream (Some (JStr text))
                        (if truthy (conversationId st) then conversationId st else None)
        in (case run_stream (chatStream parse r) (turn_start (conversationId st)) of
              (t, None) \<Rightarrow>
                (st1\<lparr> messages := messages st1 @ [assistantMessage t1 t],
                      conversationId := convId t, isLoading := False, currentSteps := [] \<rparr>,
                 request # emitted t, None)
            | (t, Some e) \<Rightarrow>
                (st1\<lparr> conversationId := convId t, isLoading := False, currentSteps := [] \<rparr>,
                 request # emitted t @ [OnError e], Some e)))"

section \<open>The home page (\<^verbatim>\<open>HomePage.handleSubmit\<close>): its own reading loop\<close>

record page_state = chat_state +
  input :: string
  showDataViewer :: bool
  currentData :: jsval

text \<open>
  The body of \<^verbatim>\<open>try { const data = JSON.parse(...); ... } catch (e) { }\<close> for one parsed
  value: a throw of the first property read, \<^verbatim>\<open>data.agent\<close> on \<^verbatim>\<open>null\<close>, leaves the locals
  as they were, and is swallowed. The branch for a throw of the step updater is there for
  totality: the loop never takes it (\<open>page_data_objects\<close>, \<open>page_loop_objects\<close>).
\<close>

definition page_data :: "json \<Rightarrow> turn \<Rightarrow> turn" where
  "page_data d t =
     (case get_prop (Some d) ''agent'' of
        Inl e \<Rightarrow> t
      | Inr ag \<Rightarrow>
          (case (if truthy ag
                 then (case upsert_step (Some d) (steps t) of
                         Inl e \<Rightarrow> Inl e
                       | Inr steps' \<Rightarrow> Inr (t\<lparr> steps := steps', trace := trace t @ [d] \<rparr>))
                 else Inr t) of
             Inl e \<Rightarrow> t
           | Inr t2 \<Rightarrow>
               let t3 = (if field d ''content'' \<noteq> None
                         then t2\<lparr> assistantContent := field d ''content'' \<rparr> else t2);
                   t4 = (if truthy (field d ''response_type'')
                         then t3\<lparr> responseData := Some d \<rparr> else t3);
                   t5 = (if truthy (field d ''processing_time_ms'')
                         then t4\<lparr> procTime := field d ''processing_time_ms'' \<rparr> else t4)
               in t5))"

text \<open>
  One line: \<^verbatim>\<open>event:\<close> lines are skipped; a \<^verbatim>\<open>data:\<close> line is parsed after
  \<^verbatim>\<open>line.replace('data:', '').trim()\<close>, which removes the prefix the line starts with.
\<close>

definition page_line :: "parser \<Rightarrow> string \<Rightarrow> turn \<Rightarrow> turn" where
  "page_line parse line t =
     (if startsWith line ''event:'' then t
      else if startsWith line ''data:''
      then (case parse (trim (drop 5 line)) of None \<Rightarrow> t | Some d \<Rightarrow> page_data d t)
      else t)"

text \<open>
  The \<^verbatim>\<open>while (true)\<close> loop: every chunk is decoded and split on its own
  (\<^verbatim>\<open>decoder.decode(value).split('\n')\<close>) and all of its pieces are handled as lines.
\<close>

fun page_loop :: "parser \<Rightarrow> string list \<Rightarrow> turn \<Rightarrow> turn" where
  "page_loop parse [] t = t"
| "page_loop parse (v # vs) t = page_loop parse vs (fold (page_line parse) (split_nl v) t)"

text \<open>\<^verbatim>\<open>responseData && responseData.response_type !== 'text'\<close>\<close>

definition shows_viewer :: "jsval \<Rightarrow> bool" where
  "shows_viewer d =
     (case d of
        None \<Rightarrow> False
      | Some j \<Rightarrow> truthy d \<and> \<not> strict_eq (field j ''response_type'') (Some (JStr ''text'')))"

definition handleSubmit ::
  "parser \<Rightarrow> int \<Rightarrow> int \<Rightarrow> error + http_response \<Rightarrow> page_state \<Rightarrow> page_state \<times> effect list" where
  "handleSubmit parse t0 t1 r st =
     (if trim (input st) = [] \<or> isLoading st then (st, [])
      else
        let st1 = st\<lparr> messages := messages st @ [userMessage t0 (input st)], input := [],
                      isLoading := True, currentSteps := [] \<rparr>;
            request = FetchStream (Some (JStr (trim (input st)))) None;
            caught = (st1\<lparr> isLoading := False, currentSteps := [] \<rparr>,
                      [request, ConsoleError, ToastError])
        in (case r of
              Inl e \<Rightarrow> caught
            | Inr response \<Rightarrow>
                if \<not> ok response then caught
                else (case body response of
                        Some (chunks, StreamError) \<Rightarrow> caught
                      | b \<Rightarrow>
                          let t = (case b of
                                     None \<Rightarrow> turn_start None
                                   | Some (chunks, fin) \<Rightarrow> page_loop parse chunks (turn_start None));
                              st2 = st1\<lparr> messages := messages st1 @ [assistantMessage t1 t] \<rparr>;
                              st3 = (if shows_viewer (responseData t)
                                     then st2\<lparr> currentData := responseData t,
                                               showDataViewer := True \<rparr>
                                     else st2)
                          in (st3\<lparr> isLoading := False, currentSteps := [] \<rparr>,
                              [request, ToastSuccess (procTime t)]))))"

section \<open>\<^verbatim>\<open>useWebSocketChat\<close> (hooks/use-chat.ts): the socket dispatcher\<close>

datatype ready_state = CONNECTING | OPEN | CLOSING | CLOSED

text \<open>\<open>socket\<close> is \<^verbatim>\<open>wsRef.current\<close>: \<open>None\<close> before the mounting effect has run.\<close>

record ws_state = chat_state +
  isConnected :: bool
  socket :: "ready_state option"

definition ws_onopen :: "ws_state \<Rightarrow> ws_state" where
  "ws_onopen st = st\<lparr> isConnected := True, socket := Some OPEN \<rparr>"

definition ws_onclose :: "ws_state \<Rightarrow> ws_state" where
  "ws_onclose st = st\<lparr> isConnected := False, socket := Some CLOSED \<rparr>"

text \<open>
  \<^verbatim>\<open>ws.onmessage\<close>: any throw inside the \<^verbatim>\<open>try\<close> (the parse, a property read on \<^verbatim>\<open>null\<close>)
  is logged and nothing else happens. The object literal of the \<^verbatim>\<open>response\<close> case reads
  \<^verbatim>\<open>data.data.message\<close> before any state is set. In the \<^verbatim>\<open>step\<close> case \<^verbatim>\<open>data.data.agent\<close>
  is read inside the updater: a throw there is not caught by the handler, the step list
  is not updated and React throws while rendering.
\<close>

definition ws_onmessage :: "parser \<Rightarrow> int \<Rightarrow> string \<Rightarrow> ws_state \<Rightarrow> ws_state \<times> effect list" where
  "ws_onmessage parse now text st =
     (case parse text of
        None \<Rightarrow> (st, [ConsoleError])
      | Some d \<Rightarrow>
          (case get_prop (Some d) ''type'' of
             Inl e \<Rightarrow> (st, [ConsoleError])
           | Inr ty \<Rightarrow>
               let dd = field d ''data'' in
               if strict_eq ty (Some (JStr ''ack'')) then (st, [])
               else if strict_eq ty (Some (JStr ''step''))
               then (case upsert_step dd (currentSteps st) of
                       Inl e \<Rightarrow> (st, [RenderError e])
                     | Inr steps' \<Rightarrow> (st\<lparr> currentSteps := steps' \<rparr>, []))
               else if strict_eq ty (Some (JStr ''response''))
               then (case (get_prop dd ''message'', get_prop dd ''data'',
                           get_prop dd ''processing_time_ms'') of
                       (Inr m, Inr da, Inr pt) \<Rightarrow>
                         (st\<lparr> messages := messages st @
                                 [\<lparr> msg_id = now, role = assistant, content = m, timestamp = now,
                                    data = da, executionTrace = None, processingTime = pt \<rparr>],
                               isLoading := False, currentSteps := [] \<rparr>, [])
                     | _ \<Rightarrow> (st, [ConsoleError]))
               else if strict_eq ty (Some (JStr ''error''))
               then (case get_prop dd ''message'' of
                       Inl e \<Rightarrow> (st, [ConsoleError])
                     | Inr m \<Rightarrow> (st\<lparr> isLoading := False, currentSteps := [] \<rparr>, [ConsoleError]))
               else (st, [])))"

text \<open>
  \<^verbatim>\<open>sendMessage\<close> of the socket variant. \<^verbatim>\<open>ws.send\<close> throws while the socket is still
  connecting and drops the frame once it is closing or closed.
\<close>

definition ws_sendMessage ::
  "int \<Rightarrow> string \<Rightarrow> jsval \<Rightarrow> ws_state \<Rightarrow> ws_state \<times> effect list \<times> error option" where
  "ws_sendMessage now text cid st =
     (if trim text = [] \<or> isLoading st \<or> socket st = None then (st, [], None)
      else
        let st1 = st\<lparr> messages := messages st @ [userMessage now text], isLoading := True,
                      currentSteps := [] \<rparr>
        in (case socket st of
              Some OPEN \<Rightarrow> (st1, [WsSend (Some (JStr text)) cid], None)
            | Some CONNECTING \<Rightarrow> (st1, [], Some InvalidStateError)
            | _ \<Rightarrow> (st1, [], None)))"

section \<open>The upload flows: \<^verbatim>\<open>InlineUpload.uploadFiles\<close> and \<^verbatim>\<open>UploadModal.uploadFiles\<close>\<close>

datatype upload_status = pending | uploading | processing | completed | failed

text \<open>\<^verbatim>\<open>interface UploadedFile\<close>; the \<^verbatim>\<open>File\<close> is represented by its name.\<close>

record UploadedFile =
  file_id :: string
  file_obj :: string
  status :: upload_status
  progress :: int
  error :: "string option"
  jobId :: jsval

text \<open>
  What the network does with one upload: \<open>Inl e\<close> when \<^verbatim>\<open>fetch\<close> rejects, otherwise
  \<^verbatim>\<open>response.ok\<close> and the outcome of \<^verbatim>\<open>response.json()\<close> (\<open>None\<close> when it rejects).
\<close>

type_synonym upload_reply = "error + bool \<times> json option"

text \<open>\<^verbatim>\<open>prev.map((f) => f.id === id ? g(f) : f)\<close>\<close>

definition update_file :: "string \<Rightarrow> (UploadedFile \<Rightarrow> UploadedFile) \<Rightarrow> UploadedFile list \<Rightarrow> UploadedFile list" where
  "update_file i g prev = map (\<lambda>f. if file_id f = i then g f else f) prev"

text \<open>One firing of the simulated-progress interval of the inline flow.\<close>

definition progress_tick :: "string \<Rightarrow> UploadedFile list \<Rightarrow> UploadedFile list" where
  "progress_tick i prev =
     map (\<lambda>f. if file_id f = i \<and> progress f < 90 then f\<lparr> progress := progress f + 10 \<rparr> else f) prev"

text \<open>The state update of the deferred \<^verbatim>\<open>setTimeout\<close> callback that marks a file completed.\<close>

definition complete_timer :: "string \<Rightarrow> UploadedFile list \<Rightarrow> UploadedFile list" where
  "complete_timer i prev = update_file i (\<lambda>f. f\<lparr> status := completed, progress := 100 \<rparr>) prev"

text \<open>
  The state of one run of \<^verbatim>\<open>uploadFiles\<close>: the \<^verbatim>\<open>files\<close> cell, the completion timers
  scheduled so far (by file id), the progress intervals never cleared, and
  \<^verbatim>\<open>completedCount\<close> as incremented inside the loop.
\<close>

record upload_run =
  files :: "UploadedFile list"
  isUploading :: bool
  timers :: "string list"
  intervals :: "string list"
  completedCount :: nat

text \<open>
  A completion timer of the run fires. In the inline flow the callback also increments
  \<^verbatim>\<open>completedCount\<close>; in the modal flow it only sets the file.
\<close>

definition inline_timer_fires :: "string \<Rightarrow> upload_run \<Rightarrow> upload_run" where
  "inline_timer_fires i run =
     (if i \<in> set (timers run)
      then run\<lparr> files := complete_timer i (files run), timers := remove1 i (timers run),
                completedCount := completedCount run + 1 \<rparr>
      else run)"

definition modal_timer_fires :: "string \<Rightarrow> upload_run \<Rightarrow> upload_run" where
  "modal_timer_fires i run =
     (if i \<in> set (timers run)
      then run\<lparr> files := complete_timer i (files run), timers := remove1 i (timers run) \<rparr>
      else run)"

text \<open>
  The \<^verbatim>\<open>setFiles\<close> updater that sets a file to processing reads \<^verbatim>\<open>result.job_id\<close>. React
  runs it while rendering, outside the \<^verbatim>\<open>try\<close> of the loop: when the answer is 2xx and its
  body is \<^verbatim>\<open>null\<close> the read throws there, the \<^verbatim>\<open>catch\<close> block does not run, the file is
  left as it was (uploading) and the completion timer is set all the same.
\<close>

definition updater_throws :: "upload_reply \<Rightarrow> bool" where
  "updater_throws reply =
     (case reply of
        Inr (True, Some res) \<Rightarrow>
          (case get_prop (Some res) ''job_id'' of Inl e \<Rightarrow> True | Inr job \<Rightarrow> False)
      | _ \<Rightarrow> False)"

text \<open>
  The inline flow, one iteration of \<^verbatim>\<open>for (const uploadFile of files)\<close>. The loop goes
  over the files as they were when \<^verbatim>\<open>uploadFiles\<close> was called and updates the \<^verbatim>\<open>files\<close>
  cell. The notification of the parent that follows the loop after a delay is left out.
  \<open>n\<close> is how often
  the 200 ms interval fired before \<^verbatim>\<open>fetch\<close> settled and \<open>m\<close> how often it fired during
  the one-second wait of the \<^verbatim>\<open>catch\<close> block when it was not cleared (\<^verbatim>\<open>clearInterval\<close>
  comes after the \<^verbatim>\<open>await fetch\<close>, so a rejected fetch leaves it running).
\<close>

definition inline_upload_one ::
  "(UploadedFile \<Rightarrow> nat \<times> nat \<times> upload_reply) \<Rightarrow> UploadedFile \<Rightarrow> upload_run \<Rightarrow> upload_run" where
  "inline_upload_one net uploadFile run =
     (if status uploadFile \<noteq> pending then run
      else
        let i = file_id uploadFile;
            (n, m, reply) = net uploadFile;
            fs1 = update_file i (\<lambda>f. f\<lparr> status := uploading, progress := 0 \<rparr>) (files run);
            fs2 = (progress_tick i ^^ n) fs1;
            caught = (\<lambda>fs. update_file i (\<lambda>f. f\<lparr> status := completed, progress := 100 \<rparr>) fs)
        in (case reply of
              Inl e \<Rightarrow>
                run\<lparr> files := caught ((progress_tick i ^^ m) fs2),
                     intervals := intervals run @ [i],
                     completedCount := completedCount run + 1 \<rparr>
            | Inr (response_ok, result) \<Rightarrow>
                (case (if response_ok
                       then (case result of None \<Rightarrow> Inl SyntaxError | Some res \<Rightarrow> Inr res)
                       else Inl HttpError) of
                   Inl e \<Rightarrow>
                     run\<lparr> files := caught fs2, completedCount := completedCount run + 1 \<rparr>
                 | Inr res \<Rightarrow>
                     (case get_prop (Some res) ''job_id'' of
                        Inl e \<Rightarrow> run\<lparr> files := fs2, timers := timers run @ [i] \<rparr>
                      | Inr job \<Rightarrow>
                          run\<lparr> files := update_file i
                                           (\<lambda>f. f\<lparr> status := processing, progress := 70,
                                                   jobId := job \<rparr>) fs2,
                               timers := timers run @ [i] \<rparr>))))"

definition inline_uploadFiles ::
  "(UploadedFile \<Rightarrow> nat \<times> nat \<times> upload_reply) \<Rightarrow> upload_run \<Rightarrow> upload_run" where
  "inline_uploadFiles net run =
     (if files run = [] then run
      else (fold (inline_upload_one net) (files run)
              (run\<lparr> isUploading := True, completedCount := 0 \<rparr>))\<lparr> isUploading := False \<rparr>)"

text \<open>The modal flow: no interval, and a \<^verbatim>\<open>catch\<close> block that records the failure.\<close>

definition modal_upload_one ::
  "(UploadedFile \<Rightarrow> upload_reply) \<Rightarrow> UploadedFile \<Rightarrow> upload_run \<Rightarrow> upload_run" where
  "modal_upload_one net uploadFile run =
     (if status uploadFile \<noteq> pending then run
      else
        let i = file_id uploadFile;
            fs1 = update_file i (\<lambda>f. f\<lparr> status := uploading, progress := 0 \<rparr>) (files run);
            caught = run\<lparr> files := update_file i
                        (\<lambda>f. f\<lparr> status := failed,
                                error := Some ''Upload failed. Please try again.'' \<rparr>) fs1 \<rparr>
        in (case net uploadFile of
              Inl e \<Rightarrow> caught
            | Inr (response_ok, result) \<Rightarrow>
                (case (if response_ok
                       then (case result of None \<Rightarrow> Inl SyntaxError | Some res \<Rightarrow> Inr res)
                       else Inl HttpError) of
                   Inl e \<Rightarrow> caught
                 | Inr res \<Rightarrow>
                     (case get_prop (Some res) ''job_id'' of
                        Inl e \<Rightarrow> run\<lparr> files := fs1, timers := timers run @ [i] \<rparr>
                      | Inr job \<Rightarrow>
                          run\<lparr> files := update_file i
                                           (\<lambda>f. f\<lparr> status := processing, progress := 50,
                                                   jobId := job \<rparr>) fs1,
                               timers := timers run @ [i] \<rparr>))))"

definition modal_uploadFiles :: "(UploadedFile \<Rightarrow> upload_reply) \<Rightarrow> upload_run \<Rightarrow> upload_run" where
  "modal_uploadFiles net run =
     (if files run = [] then run
      else (fold (modal_upload_one net) (files run) (run\<lparr> isUploading := True \<rparr>))
             \<lparr> isUploading := False \<rparr>)"

section \<open>\<^verbatim>\<open>useIngestion\<close> (hooks/use-ingestion.ts): polling a job's status\<close>

text \<open>
  The \<^verbatim>\<open>jobs\<close> cell is a \<^verbatim>\<open>Map\<close> from job id to the status object as received
  (\<^verbatim>\<open>response.json()\<close>), in insertion order. \<open>scheduled\<close> are the pending
  \<^verbatim>\<open>setTimeout(poll, interval)\<close> timers, each with its job id and delay. The hook keeps no
  handle on them.
\<close>

record ingestion =
  jobs :: "(string \<times> json) list"
  scheduled :: "(string \<times> nat) list"

datatype callback =
    OnProcessingComplete json
  | OnProcessingFailed jsval     \<comment> \<open>\<^verbatim>\<open>onError(new Error(status.error || 'Processing failed'))\<close>\<close>
  | OnStatusError error          \<comment> \<open>\<^verbatim>\<open>onError(err)\<close> of the \<^verbatim>\<open>catch\<close> block\<close>

text \<open>\<^verbatim>\<open>options.pollInterval || 2000\<close>\<close>

definition interval_of :: "nat option \<Rightarrow> nat" where
  "interval_of pollInterval =
     (case pollInterval of None \<Rightarrow> 2000 | Some n \<Rightarrow> if n = 0 then 2000 else n)"

text \<open>
  One run of the inner \<^verbatim>\<open>poll\<close>: the status request and what follows its answer.
  \<open>reply\<close> is \<open>Inl e\<close> when \<^verbatim>\<open>api.getIngestionStatus\<close> throws (rejected fetch, non-2xx
  response, malformed body). The map is set before the status is inspected.
\<close>

definition poll :: "nat option \<Rightarrow> string \<Rightarrow> error + json \<Rightarrow> ingestion \<Rightarrow> ingestion \<times> callback list" where
  "poll pollInterval job reply st =
     (case reply of
        Inl e \<Rightarrow> (st, [OnStatusError e])
      | Inr stat \<Rightarrow>
          let st1 = st\<lparr> jobs := AList.update job stat (jobs st) \<rparr> in
          (case get_prop (Some stat) ''status'' of
             Inl e \<Rightarrow> (st1, [OnStatusError e])
           | Inr s \<Rightarrow>
               if strict_eq s (Some (JStr ''completed''))
               then (st1, [OnProcessingComplete stat])
               else if strict_eq s (Some (JStr ''failed''))
               then (st1, [OnProcessingFailed
                             (if truthy (field stat ''error'') then field stat ''error''
                              else Some (JStr ''Processing failed''))])
               else (st1\<lparr> scheduled := scheduled st1 @ [(job, interval_of pollInterval)] \<rparr>,
                     [])))"

text \<open>\<^verbatim>\<open>pollJobStatus\<close> calls \<^verbatim>\<open>poll()\<close> at once.\<close>

definition pollJobStatus ::
  "nat option \<Rightarrow> string \<Rightarrow> error + json \<Rightarrow> ingestion \<Rightarrow> ingestion \<times> callback list" where
  "pollJobStatus pollInterval job reply st = poll pollInterval job reply st"

text \<open>A pending timer of the job fires: it leaves the timer queue and \<^verbatim>\<open>poll\<close> runs.\<close>

definition timer_fires ::
  "nat option \<Rightarrow> string \<Rightarrow> error + json \<Rightarrow> ingestion \<Rightarrow> ingestion \<times> callback list" where
  "timer_fires pollInterval job reply st =
     (case map_of (scheduled st) job of
        None \<Rightarrow> (st, [])
      | Some d \<Rightarrow>
          poll pollInterval job reply (st\<lparr> scheduled := remove1 (job, d) (scheduled st) \<rparr>))"

definition getJobStatus :: "string \<Rightarrow> ingestion \<Rightarrow> jsval" where
  "getJobStatus job st = map_of (jobs st) job"

text \<open>\<^verbatim>\<open>clearJobs\<close>: \<^verbatim>\<open>setJobs(new Map())\<close> and nothing else.\<close>

definition clearJobs :: "ingestion \<Rightarrow> ingestion" where
  "clearJobs st = st\<lparr> jobs := [] \<rparr>"

section \<open>Vocabulary of the statements\<close>

text \<open>A stream of lines as the server writes it: every line ends with a line feed.\<close>

definition serialize :: "string list \<Rightarrow> string" where
  "serialize ls = concat (map (\<lambda>l. l @ [CHR 0x0A]) ls)"

text \<open>The identity key of a step event: its \<^verbatim>\<open>agent\<close>, a non-empty string.\<close>

definition agent_name :: "json \<Rightarrow> string option" where
  "agent_name e = (case field e ''agent'' of Some (JStr a) \<Rightarrow> if a = [] then None else Some a | _ \<Rightarrow> None)"

text \<open>The distinct elements of a list in the order of their first occurrence.\<close>

definition first_seen :: "'a list \<Rightarrow> 'a list" where
  "first_seen xs = rev (remdups (rev xs))"

text \<open>The events of one agent merged shallowly, later over earlier: the first as received,
  each later one spread over what is retained.\<close>

fun merge_events :: "json list \<Rightarrow> json" where
  "merge_events [] = JObj []"
| "merge_events (e # es) = foldl (\<lambda>s c. spread2 (Some s) (Some c)) e es"

text \<open>The value a key has after such a merge: that of the last event carrying the key.\<close>

fun merged_field :: "json list \<Rightarrow> string \<Rightarrow> jsval" where
  "merged_field [] k = None"
| "merged_field (e # es) k = (case merged_field es k of Some v \<Rightarrow> Some v | None \<Rightarrow> field e k)"

text \<open>The events of a list that belong to one agent.\<close>

definition events_of :: "string \<Rightarrow> json list \<Rightarrow> json list" where
  "events_of a evs = filter (\<lambda>e. agent_name e = Some a) evs"

text \<open>The step list the specification describes: one merged entry per agent, in first-seen order.\<close>

definition spec_steps :: "json list \<Rightarrow> jsval list" where
  "spec_steps evs = map (\<lambda>a. Some (merge_events (events_of a evs))) (first_seen (List.map_filter agent_name evs))"

text \<open>A valid step event names its agent.\<close>

definition is_step :: "json \<Rightarrow> bool" where
  "is_step e = (agent_name e \<noteq> None)"


text \<open>
  The value of \<^verbatim>\<open>JSON.parse\<close> on the texts that occur in the concrete runs below. The
  other texts parsed in those runs are not JSON and make \<^verbatim>\<open>JSON.parse\<close> throw; the table
  answers \<open>None\<close> for every text it does not list.
\<close>

definition JSON_parse_sample :: parser where
  \<open>JSON_parse_sample = map_of
     [(''{"agent":"a","status":"running"}'',
         JObj [(''agent'', JStr ''a''), (''status'', JStr ''running'')]),
      (''{"agent":"a","status":"completed"}'',
         JObj [(''agent'', JStr ''a''), (''status'', JStr ''completed'')]),
      (''{"agent":"b","status":"running"}'',
         JObj [(''agent'', JStr ''b''), (''status'', JStr ''running'')]),
      (''{"content":"pong","processing_time_ms":5}'',
         JObj [(''content'', JStr ''pong''), (''processing_time_ms'', JNum 5)]),
      (''null'', JNull),
      (''{"type":"step","data":{"agent":"a","status":"running"}}'',
         JObj [(''type'', JStr ''step''),
               (''data'', JObj [(''agent'', JStr ''a''), (''status'', JStr ''running'')])]),
      (''{"type":"step","data":{"agent":"a","status":"completed"}}'',
         JObj [(''type'', JStr ''step''),
               (''data'', JObj [(''agent'', JStr ''a''), (''status'', JStr ''completed'')])]),
      (''{"type":"response","data":{"message":"pong","data":null,"processing_time_ms":5}}'',
         JObj [(''type'', JStr ''response''),
               (''data'', JObj [(''message'', JStr ''pong''), (''data'', JNull),
                                (''processing_time_ms'', JNum 5)])])]\<close>

text \<open>
  A line of the HTTP stream that the parser itself drops: it lacks the \<^verbatim>\<open>data:\<close> prefix
  or \<^verbatim>\<open>JSON.parse\<close> throws on its payload. (A line may be bad in another way: its payload
  parses but is no event.)
\<close>

definition unparsable_line :: "parser \<Rightarrow> string \<Rightarrow> bool" where
  "unparsable_line parse line =
     (\<not> startsWith line ''data:'' \<or> parse (trim (drop 5 line)) = None)"

text \<open>The socket delivering messages one after the other, each with its clock reading.\<close>

definition ws_receive_all :: "parser \<Rightarrow> (int \<times> string) list \<Rightarrow> ws_state \<Rightarrow> ws_state" where
  "ws_receive_all parse msgs st = fold (\<lambda>(now, m) s. fst (ws_onmessage parse now m s)) msgs st"

text \<open>A successful response whose body arrives as the given chunks.\<close>

definition streamed :: "string list \<Rightarrow> stream_end \<Rightarrow> error + http_response" where
  "streamed chunks fin = Inr \<lparr> ok = True, body = Some (chunks, fin) \<rparr>"


text \<open>The status the step list shows for an agent: that of the agent's entry.\<close>

fun shown_status :: "jsval list \<Rightarrow> string \<Rightarrow> jsval" where
  "shown_status [] a = None"
| "shown_status (s # ss) a =
     (case s of
        None \<Rightarrow> shown_status ss a
      | Some j \<Rightarrow> if field j ''agent'' = Some (JStr a) then field j ''status''
                  else shown_status ss a)"

definition is_final :: "jsval \<Rightarrow> bool" where
  "is_final v = (v = Some (JStr ''completed'') \<or> v = Some (JStr ''failed''))"

definition is_live :: "jsval \<Rightarrow> bool" where
  "is_live v = (v = Some (JStr ''pending'') \<or> v = Some (JStr ''running''))"

text \<open>
  The transport fails under a turn: \<^verbatim>\<open>fetch\<close> rejects, the response is not 2xx, or
  reading the body rejects before the stream is done.
\<close>

definition transport_throws :: "error + http_response \<Rightarrow> bool" where
  "transport_throws r =
     (case r of
        Inl e \<Rightarrow> True
      | Inr response \<Rightarrow>
          if ok response
          then (case body response of None \<Rightarrow> False | Some (chunks, fin) \<Rightarrow> fin = StreamError)
          else True)"

text \<open>A step event that carries no message text.\<close>

definition is_bare_step :: "json \<Rightarrow> bool" where
  "is_bare_step e = (is_step e \<and> field e ''content'' = None)"

text \<open>The upload of a file fails: the request is rejected or answered with a non-2xx status.\<close>

definition upload_fails :: "upload_reply \<Rightarrow> bool" where
  "upload_fails reply = (case reply of Inl e \<Rightarrow> True | Inr (response_ok, result) \<Rightarrow> \<not> response_ok)"

text \<open>A status answer the polling loop treats as terminal.\<close>

definition terminal_status :: "json \<Rightarrow> bool" where
  "terminal_status stat =
     (field stat ''status'' = Some (JStr ''completed'') \<or> field stat ''status'' = Some (JStr ''failed''))"

text \<open>
  Modelled from the spec: the server's serializers, which are not under src/. What the two
  transports carry for one logical event sequence (step events, then a terminal payload
  with the final text and the processing time, without a structured data block) follows
  section 6 of the specification, with the field names the two hooks read: over HTTP
  each event is a JSON object on a \<^verbatim>\<open>data:\<close> line, the step event itself or the terminal
  payload; over the socket each event is wrapped as \<^verbatim>\<open>{ type, data }\<close>.
\<close>

definition terminal_chunk :: "string \<Rightarrow> rat \<Rightarrow> json" where
  "terminal_chunk text ms = JObj [(''content'', JStr text), (''processing_time_ms'', JNum ms)]"

definition step_envelope :: "json \<Rightarrow> json" where
  "step_envelope e = JObj [(''type'', JStr ''step''), (''data'', e)]"

definition response_envelope :: "string \<Rightarrow> rat \<Rightarrow> json" where
  "response_envelope text ms =
     JObj [(''type'', JStr ''response''),
           (''data'', JObj [(''message'', JStr text), (''data'', JNull),
                            (''processing_time_ms'', JNum ms)])]"

text \<open>A step event that carries none of the fields of the terminal payload.\<close>

definition is_plain_step :: "json \<Rightarrow> bool" where
  "is_plain_step e =
     (is_step e \<and> field e ''content'' = None \<and> field e ''response_type'' = None
      \<and> field e ''processing_time_ms'' = None)"

text \<open>The state after a turn over HTTP whose stream arrives in the given chunks and ends.\<close>

definition http_turn :: "parser \<Rightarrow> int \<Rightarrow> int \<Rightarrow> string list \<Rightarrow> string \<Rightarrow> http_state \<Rightarrow> http_state" where
  "http_turn parse t0 t1 chunks text st =
     fst (sendMessage parse t0 t1 (streamed chunks StreamDone) text st)"

text \<open>The state after sending over the socket and receiving the given messages.\<close>

definition ws_turn :: "parser \<Rightarrow> int \<Rightarrow> string \<Rightarrow> jsval \<Rightarrow> (int \<times> string) list \<Rightarrow> ws_state \<Rightarrow> ws_state" where
  "ws_turn parse t0 text cid msgs st =
     ws_receive_all parse msgs (fst (ws_sendMessage t0 text cid st))"

text \<open>A step list all of whose entries are objects.\<close>

definition all_objects :: "jsval list \<Rightarrow> bool" where
  "all_objects ss = list_all (\<lambda>s. case s of Some (JObj kvs) \<Rightarrow> True | _ \<Rightarrow> False) ss"

section \<open>Lines and chunks\<close>

lemma split_nl_nonempty: "split_nl s \<noteq> []"
  by (induction s) (auto split: list.splits)

lemma split_nl_append:
  "split_nl (a @ b) = butlast (split_nl a) @ split_nl (last (split_nl a) @ b)"
proof (induction a)
  case Nil
  then show ?case by simp
next
  case (Cons c a)
  show ?case
  proof (cases "c = CHR 0x0A")
    case True
    with Cons split_nl_nonempty[of a] show ?thesis by simp
  next
    case False
    obtain l ls where eq: "split_nl a = l # ls"
      using split_nl_nonempty[of a] by (cases "split_nl a") auto
    show ?thesis
    proof (cases ls)
      case Nil
      with eq False Cons show ?thesis 
        using split_nl_nonempty[of "l @ b"] by (auto split: list.splits)
    next
      case (Cons l' ls')
      with eq False Cons.IH show ?thesis 
        by (auto split: list.splits)
    qed
  qed
qed

lemma read_loop_join:
  "read_loop p buf (a # b # vs) = read_loop p buf ((a @ b) # vs)"
proof -
  let ?la = "split_nl (buf @ a)"
  have s: "split_nl (buf @ a @ b) = butlast ?la @ split_nl (last ?la @ b)"
    using split_nl_append[of "buf @ a" b] by simp
  have ne: "split_nl (last ?la @ b) \<noteq> []" by (rule split_nl_nonempty)
  show ?thesis
    using ne by (simp add: s Let_def butlast_append)
qed

lemma read_loop_concat_Cons:
  "read_loop p buf (a # vs) = read_loop p buf [concat (a # vs)]"
proof (induction vs arbitrary: a)
  case Nil
  then show ?case by simp
next
  case (Cons b vs)
  have "read_loop p buf (a # b # vs) = read_loop p buf ((a @ b) # vs)"
    by (rule read_loop_join)
  also have "\<dots> = read_loop p buf [concat ((a @ b) # vs)]"
    by (rule Cons.IH)
  also have "concat ((a @ b) # vs) = concat (a # b # vs)" by simp
  finally show ?case .
qed

lemma read_loop_concat: "read_loop p [] chunks = read_loop p [] [concat chunks]"
proof (cases chunks)
  case Nil
  then show ?thesis by simp
next
  case (Cons a vs)
  then show ?thesis using read_loop_concat_Cons[of p "[]" a vs] by simp
qed

lemma split_nl_line:
  "CHR 0x0A \<notin> set l \<Longrightarrow> split_nl (l @ CHR 0x0A # r) = l # split_nl r"
  by (induction l) auto

lemma split_nl_serialize:
  "\<forall>l\<in>set ls. CHR 0x0A \<notin> set l \<Longrightarrow> split_nl (serialize ls @ r) = ls @ split_nl r"
  by (induction ls) (auto simp: serialize_def split_nl_line)

lemma read_loop_serialize:
  assumes "\<forall>l\<in>set ls. CHR 0x0A \<notin> set l" "CHR 0x0A \<notin> set r"
  shows "read_loop p [] [serialize ls @ r] = concat (map (parse_line p) ls)"
proof -
  have "split_nl r = [r]" using assms(2) by (induction r) auto
  then show ?thesis using split_nl_serialize[OF assms(1), of r] by (simp add: butlast_append)
qed

section \<open>Objects, spreading and the step reducer\<close>

lemma assign_all_map_of:
  "distinct (map fst t) \<Longrightarrow>
     distinct (map fst (assign_all t src)) \<and> map_of (assign_all t src) = map_of t ++ map_of (rev src)"
proof (induction src arbitrary: t)
  case Nil
  then show ?case by simp
next
  case (Cons kv src)
  obtain k v where kv: "kv = (k, v)" by (cases kv)
  have d: "distinct (map fst (AList.update k v t))" using Cons.prems by (rule distinct_update)
  from Cons.IH[OF d] show ?case
    by (simp add: kv update_conv' map_add_upd_left fun_eq_iff map_add_def split: option.splits)
qed

lemma map_of_rev_distinct: "distinct (map fst al) \<Longrightarrow> map_of (rev al) = map_of al"
  by (metis distinct_rev map_of_inject_set rev_map set_rev)

lemma field_spread2:
  "field (spread2 (Some (JObj ks)) (Some (JObj kc))) k =
     (case field (JObj kc) k of Some v \<Rightarrow> Some v | None \<Rightarrow> field (JObj ks) k)"
proof -
  have d0: "distinct (map fst ([] :: (string \<times> json) list))" by simp
  have a: "distinct (map fst (assign_all [] ks))" "map_of (assign_all [] ks) = map_of (rev ks)"
    using assign_all_map_of[OF d0, of ks] by simp_all
  have b: "distinct (map fst (assign_all (assign_all [] ks) kc))"
     "map_of (assign_all (assign_all [] ks) kc) = map_of (rev ks) ++ map_of (rev kc)"
    using assign_all_map_of[OF a(1), of kc] a(2) by simp_all
  show ?thesis
    by (simp add: spread2_def map_of_rev_distinct[OF b(1)] b(2) map_add_def split: option.splits)
qed

lemma first_seen_snoc:
  "first_seen (xs @ [a]) = (if a \<in> set xs then first_seen xs else first_seen xs @ [a])"
  by (simp add: first_seen_def)

lemma find_step_map:
  assumes "\<forall>b\<in>set A. \<exists>kvs. f b = Some (JObj kvs) \<and> field (JObj kvs) ''agent'' = Some (JStr b)"
  shows "find_step (map f A) (Inr (Some (JStr a))) = Inr (if a \<in> set A then f a else None)"
  using assms
proof (induction A)
  case Nil
  then show ?case by simp
next
  case (Cons b A)
  then obtain kvs where fb: "f b = Some (JObj kvs)" "field (JObj kvs) ''agent'' = Some (JStr b)"
    by auto
  from Cons have ih: "find_step (map f A) (Inr (Some (JStr a))) = Inr (if a \<in> set A then f a else None)"
    by simp
  show ?case using fb ih by auto
qed

lemma map_steps_map:
  assumes "\<forall>b\<in>set A. \<exists>kvs. f b = Some (JObj kvs) \<and> field (JObj kvs) ''agent'' = Some (JStr b)"
  shows "map_steps (map f A) (Inr (Some (JStr a))) c =
           Inr (map (\<lambda>b. if b = a then Some (spread2 (f b) c) else f b) A)"
  using assms
proof (induction A)
  case Nil
  then show ?case by simp
next
  case (Cons b A)
  then obtain kvs where fb: "f b = Some (JObj kvs)" "field (JObj kvs) ''agent'' = Some (JStr b)"
    by auto
  from Cons have ih: "map_steps (map f A) (Inr (Some (JStr a))) c =
           Inr (map (\<lambda>b. if b = a then Some (spread2 (f b) c) else f b) A)"
    by simp
  show ?case using fb ih by auto
qed

lemma agent_name_SomeD:
  "agent_name e = Some a \<Longrightarrow> \<exists>kvs. e = JObj kvs \<and> field e ''agent'' = Some (JStr a) \<and> a \<noteq> []"
  by (cases e) (auto simp: agent_name_def split: option.splits json.splits if_splits)

lemma merge_events_snoc:
  "merge_events (es @ [e]) = (if es = [] then e else spread2 (Some (merge_events es)) (Some e))"
  by (cases es) auto

lemma merge_events_obj:
  "es \<noteq> [] \<Longrightarrow> \<forall>e\<in>set es. agent_name e = Some b \<Longrightarrow>
     \<exists>kvs. merge_events es = JObj kvs \<and> field (JObj kvs) ''agent'' = Some (JStr b)"
proof (induction es rule: rev_induct)
  case Nil
  then show ?case by simp
next
  case (snoc e es)
  from snoc.prems obtain kc where e: "e = JObj kc" "field e ''agent'' = Some (JStr b)"
    using agent_name_SomeD[of e b] by auto
  show ?case
  proof (cases "es = []")
    case True
    then show ?thesis using e by simp
  next
    case False
    with snoc obtain ks where m: "merge_events es = JObj ks" by auto
    have "field (spread2 (Some (JObj ks)) (Some (JObj kc))) ''agent'' = Some (JStr b)"
      using e by (simp only: field_spread2) simp
    then show ?thesis using False m e by (simp add: merge_events_snoc spread2_def)
  qed
qed

lemma merged_field_snoc:
  "merged_field (es @ [e]) k = (case field e k of Some v \<Rightarrow> Some v | None \<Rightarrow> merged_field es k)"
  by (induction es) (auto split: option.splits)

lemma merge_events_is_obj:
  "\<forall>e\<in>set es. \<exists>kvs. e = JObj kvs \<Longrightarrow> \<exists>kvs. merge_events es = JObj kvs"
  by (induction es rule: rev_induct) (auto simp: merge_events_snoc spread2_def)

lemma field_merge_events:
  "\<forall>e\<in>set es. \<exists>kvs. e = JObj kvs \<Longrightarrow> field (merge_events es) k = merged_field es k"
proof (induction es rule: rev_induct)
  case Nil
  then show ?case by simp
next
  case (snoc e es)
  from snoc.prems obtain kc where e: "e = JObj kc" by auto
  from snoc.prems obtain ks where m: "merge_events es = JObj ks"
    using merge_events_is_obj[of es] by auto
  show ?case
  proof (cases "es = []")
    case True
    then show ?thesis by (simp split: option.splits)
  next
    case False
    have "field (merge_events (es @ [e])) k = field (spread2 (Some (JObj ks)) (Some (JObj kc))) k"
      using False m e by (simp add: merge_events_snoc)
    also have "\<dots> = (case field e k of Some v \<Rightarrow> Some v | None \<Rightarrow> field (merge_events es) k)"
      unfolding field_spread2 using m e by (simp split: option.splits)
    also have "\<dots> = merged_field (es @ [e]) k"
      using snoc by (simp add: merged_field_snoc split: option.splits)
    finally show ?thesis .
  qed
qed

lemma events_of_snoc:
  "events_of a (evs @ [e]) = (if agent_name e = Some a then events_of a evs @ [e] else events_of a evs)"
  by (simp add: events_of_def)

lemma names_snoc:
  "agent_name e = Some a \<Longrightarrow> List.map_filter agent_name (evs @ [e]) = List.map_filter agent_name evs @ [a]"
  by (simp add: List.map_filter_def)

lemma set_names: "set (first_seen (List.map_filter agent_name evs)) = {a. \<exists>e\<in>set evs. agent_name e = Some a}"
  by (force simp: first_seen_def List.map_filter_def image_iff)

lemma upsert_spec_steps:
  assumes e: "agent_name e = Some a"
  shows "upsert_step (Some e) (spec_steps evs) = Inr (spec_steps (evs @ [e]))"
proof -
  let ?A = "first_seen (List.map_filter agent_name evs)"
  let ?f = "\<lambda>b. Some (merge_events (events_of b evs))"
  from agent_name_SomeD[OF e] obtain kc where ek: "e = JObj kc" "field e ''agent'' = Some (JStr a)"
    by auto
  have gp: "get_prop (Some e) ''agent'' = Inr (Some (JStr a))" using ek by simp
  have cond: "\<forall>b\<in>set ?A. \<exists>kvs. ?f b = Some (JObj kvs) \<and> field (JObj kvs) ''agent'' = Some (JStr b)"
  proof
    fix b assume "b \<in> set ?A"
    then have "events_of b evs \<noteq> []" by (auto simp: set_names events_of_def filter_empty_conv)
    moreover have "\<forall>x\<in>set (events_of b evs). agent_name x = Some b" by (simp add: events_of_def)
    ultimately show "\<exists>kvs. ?f b = Some (JObj kvs) \<and> field (JObj kvs) ''agent'' = Some (JStr b)"
      using merge_events_obj by simp
  qed
  have S: "spec_steps evs = map ?f ?A" by (simp add: spec_steps_def)
  show ?thesis
  proof (cases "a \<in> set ?A")
    case True
    then have ne: "events_of a evs \<noteq> []" by (auto simp: set_names events_of_def filter_empty_conv)
    from True cond obtain kvs where fa: "?f a = Some (JObj kvs)" by blast
    have fs: "first_seen (List.map_filter agent_name (evs @ [e])) = ?A"
      using True e by (simp add: names_snoc first_seen_snoc first_seen_def)
    have "upsert_step (Some e) (spec_steps evs) =
            Inr (map (\<lambda>b. if b = a then Some (spread2 (?f b) (Some e)) else ?f b) ?A)"
      unfolding upsert_step_def S gp find_step_map[OF cond] map_steps_map[OF cond]
      using True fa by simp
    also have "map (\<lambda>b. if b = a then Some (spread2 (?f b) (Some e)) else ?f b) ?A =
               spec_steps (evs @ [e])"
      unfolding spec_steps_def fs
      using ne e by (auto simp: events_of_snoc merge_events_snoc)
    finally show ?thesis .
  next
    case False
    then have emp: "events_of a evs = []" by (auto simp: set_names events_of_def filter_empty_conv)
    have fs: "first_seen (List.map_filter agent_name (evs @ [e])) = ?A @ [a]"
      using False e by (simp add: names_snoc first_seen_snoc first_seen_def)
    have "upsert_step (Some e) (spec_steps evs) = Inr (map ?f ?A @ [Some e])"
      unfolding upsert_step_def S gp find_step_map[OF cond]
      using False by simp
    also have "map ?f ?A @ [Some e] = spec_steps (evs @ [e])"
      unfolding spec_steps_def fs
      using emp e False by (auto simp: events_of_snoc)
    finally show ?thesis .
  qed
qed

lemma for_await_append:
  "for_await (xs @ ys) t =
     (case for_await xs t of (t', Some e) \<Rightarrow> (t', Some e) | (t', None) \<Rightarrow> for_await ys t')"
  by (induction xs arbitrary: t) (auto split: prod.splits option.splits)

lemma chunk_step_is_step:
  assumes "is_step e" "steps t = spec_steps pre"
  shows "\<exists>t'. chunk_step e t = (t', None) \<and> steps t' = spec_steps (pre @ [e]) \<and>
              trace t' = trace t @ [e]"
proof -
  from assms(1) obtain a where a: "agent_name e = Some a" by (auto simp: is_step_def)
  from agent_name_SomeD[OF a] obtain kc where ek: "e = JObj kc" "field e ''agent'' = Some (JStr a)" "a \<noteq> []"
    by auto
  have tr: "truthy (field e ''agent'')" using ek by simp
  have gp: "get_prop (Some e) ''conversation_id'' = Inr (field e ''conversation_id'')" using ek by simp
  show ?thesis
    unfolding chunk_step_def gp
    using tr upsert_spec_steps[OF a, of pre] assms(2)
    by (simp add: Let_def)
qed


lemma for_await_steps:
  assumes "\<forall>e\<in>set evs. is_step e" "steps t = spec_steps pre"
  shows "\<exists>t'. for_await evs t = (t', None) \<and> steps t' = spec_steps (pre @ evs) \<and>
              trace t' = trace t @ evs"
  using assms
proof (induction evs arbitrary: t pre)
  case Nil
  then show ?case by simp
next
  case (Cons e evs)
  from Cons.prems have "is_step e" by simp
  from chunk_step_is_step[OF this Cons.prems(2)] obtain t1 where
    t1: "chunk_step e t = (t1, None)" "steps t1 = spec_steps (pre @ [e])" "trace t1 = trace t @ [e]"
    by blast
  from Cons.prems have "\<forall>x\<in>set evs. is_step x" by simp
  from Cons.IH[OF this t1(2)] obtain t' where
    "for_await evs t1 = (t', None)" "steps t' = spec_steps ((pre @ [e]) @ evs)"
    "trace t' = trace t1 @ evs" by blast
  then show ?case using t1 by simp
qed

section \<open>Lines and messages that do not parse\<close>

lemma parse_line_unparsable: "unparsable_line p l \<Longrightarrow> parse_line p l = []"
  by (auto simp: unparsable_line_def parse_line_def)

lemma chatStream_streamed:
  "chatStream p (streamed chunks fin) =
     (read_loop p [] [concat chunks], case fin of StreamDone \<Rightarrow> None | StreamError \<Rightarrow> Some NetworkError)"
  using read_loop_concat[of p chunks] by (simp add: chatStream_def streamed_def)

lemma chatStream_lines:
  assumes "\<forall>l\<in>set ls. CHR 0x0A \<notin> set l" "concat chunks = serialize ls"
  shows "fst (chatStream p (streamed chunks fin)) = concat (map (parse_line p) ls)"
  using read_loop_serialize[OF assms(1), of "[]" p] assms(2)
  by (simp add: chatStream_streamed)

lemma ws_unparsable: "p m = None \<Longrightarrow> fst (ws_onmessage p now m st) = st"
  by (simp add: ws_onmessage_def)

text \<open>
  A line that does not parse, in the middle of an HTTP stream however cut into chunks, is
  dropped by \<^verbatim>\<open>chatStream\<close>: the generator yields the events of the other lines in their
  order and ends as it would without the line. A message that does not parse, in the
  middle of a socket conversation, leaves the socket state as it is.
\<close>

lemma unparsable_line_is_skipped:
  assumes lines: "\<forall>l\<in>set (ls1 @ bad # ls2). CHR 0x0A \<notin> set l"
    and bad: "unparsable_line p bad"
    and with_bad: "concat chunks = serialize (ls1 @ bad # ls2)"
    and without: "concat chunks' = serialize (ls1 @ ls2)"
  shows "fst (chatStream p (streamed chunks fin)) =
           concat (map (parse_line p) ls1) @ concat (map (parse_line p) ls2)
       \<and> chatStream p (streamed chunks fin) = chatStream p (streamed chunks' fin)"
proof -
  have l2: "\<forall>l\<in>set (ls1 @ ls2). CHR 0x0A \<notin> set l" using lines by auto
  have a: "fst (chatStream p (streamed chunks fin)) =
             concat (map (parse_line p) ls1) @ concat (map (parse_line p) ls2)"
    using chatStream_lines[OF lines with_bad, of p fin] parse_line_unparsable[OF bad] by simp
  have b: "fst (chatStream p (streamed chunks' fin)) =
             concat (map (parse_line p) ls1) @ concat (map (parse_line p) ls2)"
    using chatStream_lines[OF l2 without, of p fin] by simp
  have c: "chatStream p (streamed chunks fin) = chatStream p (streamed chunks' fin)"
    using a b by (simp add: chatStream_streamed)
  show ?thesis using a c by simp
qed

lemma unparsable_message_is_skipped:
  assumes "p badmsg = None"
  shows "ws_receive_all p (ms1 @ (now, badmsg) # ms2) ws = ws_receive_all p (ms1 @ ms2) ws"
  using ws_unparsable[of p badmsg] assms by (simp add: ws_receive_all_def)

section \<open>Chunk boundaries\<close>

lemma chatStream_any_chunking:
  "chatStream p (streamed chunks fin) = chatStream p (streamed [concat chunks] fin)"
  by (simp add: chatStream_streamed)

lemma chatStream_split_safe:
  "chatStream p (streamed [take n s, drop n s] fin) = chatStream p (streamed [s] fin)"
  using chatStream_any_chunking[of p "[take n s, drop n s]" fin] by simp

text \<open>
  Claim C3. \<^verbatim>\<open>chatStream\<close> is indifferent to where the stream is cut
  (\<open>chatStream_split_safe\<close>), but the home page's own reading loop keeps no buffer: a
  line cut in two is lost. The stream is one step event line; whole, the loop records the
  event; cut after twenty characters, it records nothing, where \<^verbatim>\<open>chatStream\<close> still
  yields the event.
\<close>

theorem homepage_loop_drops_split_line:
  \<open>trace (page_loop JSON_parse_sample
            [''data: {"agent":"a","status":"completed"}'' @ [CHR 0x0A]] (turn_start None)) =
      [JObj [(''agent'', JStr ''a''), (''status'', JStr ''completed'')]]
   \<and> trace (page_loop JSON_parse_sample
            [''data: {"agent":"a","s'', ''tatus":"completed"}'' @ [CHR 0x0A]] (turn_start None)) = []
   \<and> steps (page_loop JSON_parse_sample
            [''data: {"agent":"a","s'', ''tatus":"completed"}'' @ [CHR 0x0A]] (turn_start None)) = []
   \<and> fst (chatStream JSON_parse_sample
            (streamed [''data: {"agent":"a","s'', ''tatus":"completed"}'' @ [CHR 0x0A]] StreamDone)) =
      [JObj [(''agent'', JStr ''a''), (''status'', JStr ''completed'')]]\<close>
  by code_simp

section \<open>The step list after a turn's events\<close>

lemma page_line_parse_line: "page_line p l t = fold page_data (parse_line p l) t"
proof (cases l)
  case Nil
  then show ?thesis by (simp add: page_line_def parse_line_def startsWith_def)
next
  case (Cons c cs)
  then show ?thesis
    by (auto simp: page_line_def parse_line_def startsWith_def split: option.splits)
qed

lemma fold_over_concat: "fold f (concat xss) t = fold (fold f) xss t"
  by (induction xss arbitrary: t) auto

lemma page_loop_serialize:
  assumes "\<forall>l\<in>set ls. CHR 0x0A \<notin> set l"
  shows "page_loop p [serialize ls] t = fold page_data (concat (map (parse_line p) ls)) t"
proof -
  have s: "split_nl (serialize ls) = ls @ [[]]"
    using split_nl_serialize[OF assms, of "[]"] by simp
  have pl: "page_line p = (\<lambda>l. fold page_data (parse_line p l))"
    by (rule ext)+ (simp add: page_line_parse_line)
  have e: "parse_line p [] = []" by (simp add: parse_line_def startsWith_def)
  show ?thesis
    by (simp add: s pl e fold_over_concat fold_map comp_def)
qed

lemma page_data_is_step:
  assumes "is_step e" "steps t = spec_steps pre"
  shows "steps (page_data e t) = spec_steps (pre @ [e]) \<and> trace (page_data e t) = trace t @ [e]"
proof -
  from assms(1) obtain a where a: "agent_name e = Some a" by (auto simp: is_step_def)
  from agent_name_SomeD[OF a] obtain kc where ek: "e = JObj kc" "field e ''agent'' = Some (JStr a)" "a \<noteq> []"
    by auto
  have gp: "get_prop (Some e) ''agent'' = Inr (field e ''agent'')" using ek by simp
  show ?thesis
    unfolding page_data_def gp
    using ek(2,3) upsert_spec_steps[OF a, of pre] assms(2)
    by (simp add: Let_def)
qed


lemma fold_page_data_steps:
  assumes "\<forall>e\<in>set evs. is_step e" "steps t = spec_steps pre"
  shows "steps (fold page_data evs t) = spec_steps (pre @ evs) \<and>
         trace (fold page_data evs t) = trace t @ evs"
  using assms
proof (induction evs arbitrary: t pre)
  case Nil
  then show ?case by simp
next
  case (Cons e evs)
  from Cons.prems have "is_step e" by simp
  note s = page_data_is_step[OF this Cons.prems(2)]
  from Cons.prems have "\<forall>x\<in>set evs. is_step x" by simp
  from Cons.IH[OF this, of "page_data e t" "pre @ [e]"] s show ?case by simp
qed

lemma spec_steps_Nil: "spec_steps [] = []"
  by (simp add: spec_steps_def first_seen_def List.map_filter_def)


lemma set_first_seen: "set (first_seen xs) = set xs"
  by (simp add: first_seen_def)

lemma events_of_objects: "\<forall>e\<in>set (events_of a evs). \<exists>kvs. e = JObj kvs"
  using agent_name_SomeD by (auto simp: events_of_def)





section \<open>The life cycle of a step\<close>

lemma shown_status_map:
  assumes "\<forall>b\<in>set A. field (f b) ''agent'' = Some (JStr b)"
  shows "shown_status (map (\<lambda>b. Some (f b)) A) a =
           (if a \<in> set A then field (f a) ''status'' else None)"
  using assms by (induction A) auto

lemma shown_status_spec_steps:
  "shown_status (spec_steps evs) a = merged_field (events_of a evs) ''status''"
proof -
  let ?A = "first_seen (List.map_filter agent_name evs)"
  let ?f = "\<lambda>b. merge_events (events_of b evs)"
  have cond: "\<forall>b\<in>set ?A. field (?f b) ''agent'' = Some (JStr b)"
  proof
    fix b assume "b \<in> set ?A"
    then have "events_of b evs \<noteq> []" by (auto simp: set_names events_of_def filter_empty_conv)
    moreover have "\<forall>x\<in>set (events_of b evs). agent_name x = Some b" by (simp add: events_of_def)
    ultimately show "field (?f b) ''agent'' = Some (JStr b)"
      using merge_events_obj[of "events_of b evs" b] by auto
  qed
  have "shown_status (spec_steps evs) a = (if a \<in> set ?A then field (?f a) ''status'' else None)"
    unfolding spec_steps_def using shown_status_map[OF cond] by simp
  also have "\<dots> = merged_field (events_of a evs) ''status''"
  proof (cases "a \<in> set ?A")
    case True
    then show ?thesis using field_merge_events[OF events_of_objects] by simp
  next
    case False
    then have "events_of a evs = []" by (auto simp: set_names events_of_def filter_empty_conv)
    with False show ?thesis by simp
  qed
  finally show ?thesis .
qed

lemma for_await_steps_start:
  assumes "\<forall>e\<in>set evs. is_step e"
  shows "steps (fst (for_await evs (turn_start cid))) = spec_steps evs"
proof -
  have "steps (turn_start cid) = spec_steps []" by (simp add: turn_start_def spec_steps_Nil)
  from for_await_steps[OF assms this] show ?thesis by auto
qed

lemma fold_page_data_steps_start:
  assumes "\<forall>e\<in>set evs. is_step e"
  shows "steps (fold page_data evs (turn_start cid)) = spec_steps evs"
proof -
  have "steps (turn_start cid) = spec_steps []" by (simp add: turn_start_def spec_steps_Nil)
  from fold_page_data_steps[OF assms this] show ?thesis by auto
qed

text \<open>
  Claim C7, as the code has it. The reducer applies every step event as it comes: the
  status shown for an agent after one more event is that event's status when the event
  is the agent's and carries one, and is unchanged otherwise. So a status shown as
  completed or failed moves back to pending or running exactly when a later event of
  that agent says pending or running; the reducer keeps no guard of its own. The home
  page holds the same list.
\<close>

theorem shown_status_follows_last_event:
  assumes "\<forall>e\<in>set evs. is_step e" and "is_step e"
  shows "shown_status (steps (fst (for_await (evs @ [e]) (turn_start cid)))) a =
           (if agent_name e = Some a \<and> field e ''status'' \<noteq> None then field e ''status''
            else shown_status (steps (fst (for_await evs (turn_start cid)))) a)
       \<and> (is_final (shown_status (steps (fst (for_await evs (turn_start cid)))) a) \<longrightarrow>
            (is_live (shown_status (steps (fst (for_await (evs @ [e]) (turn_start cid)))) a)
               \<longleftrightarrow> agent_name e = Some a \<and> is_live (field e ''status'')))
       \<and> steps (fold page_data (evs @ [e]) (turn_start None)) =
           steps (fst (for_await (evs @ [e]) (turn_start cid)))"
proof -
  have all: "\<forall>x\<in>set (evs @ [e]). is_step x" using assms by simp
  have s0: "steps (fst (for_await evs (turn_start cid))) = spec_steps evs"
    using for_await_steps_start[OF assms(1)] .
  have s1: "steps (fst (for_await (evs @ [e]) (turn_start cid))) = spec_steps (evs @ [e])"
    using for_await_steps_start[OF all] .
  have p1: "steps (fold page_data (evs @ [e]) (turn_start None)) = spec_steps (evs @ [e])"
    using fold_page_data_steps_start[OF all] .
  have A: "shown_status (spec_steps (evs @ [e])) a =
           (if agent_name e = Some a \<and> field e ''status'' \<noteq> None then field e ''status''
            else shown_status (spec_steps evs) a)"
    by (auto simp: shown_status_spec_steps events_of_snoc merged_field_snoc split: option.splits)
  have B: "is_final (shown_status (spec_steps evs) a) \<longrightarrow>
            (is_live (shown_status (spec_steps (evs @ [e])) a)
               \<longleftrightarrow> agent_name e = Some a \<and> is_live (field e ''status''))"
    unfolding A by (auto simp: is_final_def is_live_def)
  show ?thesis unfolding s0 s1 p1 using A B by simp
qed

theorem shown_status_follows_last_event_witness:
  "is_step (JObj [(''agent'', JStr ''a''), (''status'', JStr ''completed'')])
   \<and> is_step (JObj [(''agent'', JStr ''b''), (''status'', JStr ''running'')])
   \<and> is_final (shown_status (steps (fst (for_await
        [JObj [(''agent'', JStr ''a''), (''status'', JStr ''completed'')]] (turn_start None)))) ''a'')
   \<and> \<not> is_live (shown_status (steps (fst (for_await
        ([JObj [(''agent'', JStr ''a''), (''status'', JStr ''completed'')]] @
         [JObj [(''agent'', JStr ''b''), (''status'', JStr ''running'')]]) (turn_start None)))) ''a'')"
proof -
  let ?e1 = "JObj [(''agent'', JStr ''a''), (''status'', JStr ''completed'')]"
  let ?e2 = "JObj [(''agent'', JStr ''b''), (''status'', JStr ''running'')]"
  have h1: "\<forall>e\<in>set [?e1]. is_step e" by code_simp
  have h2: "is_step ?e2" by code_simp
  have f: "is_final (shown_status (steps (fst (for_await [?e1] (turn_start None)))) ''a'')"
    by code_simp
  have n: "agent_name ?e2 \<noteq> Some ''a''" by code_simp
  from shown_status_follows_last_event[OF h1 h2, of None "''a''"] f n
  have "\<not> is_live (shown_status (steps (fst (for_await ([?e1] @ [?e2]) (turn_start None)))) ''a'')"
    by blast
  then show ?thesis using h1 h2 f by simp
qed

text \<open>
  Claim C7, as stated, fails: on a completed event followed by a running event of the
  same agent the status shown goes from completed back to running.
\<close>

theorem status_moves_back_counterexample:
  "is_final (shown_status (steps (fst (for_await
        [JObj [(''agent'', JStr ''a''), (''status'', JStr ''completed'')]] (turn_start None)))) ''a'')
   \<and> is_live (shown_status (steps (fst (for_await
        [JObj [(''agent'', JStr ''a''), (''status'', JStr ''completed'')],
         JObj [(''agent'', JStr ''a''), (''status'', JStr ''running'')]] (turn_start None)))) ''a'')"
  by code_simp

section \<open>The guards of the three senders\<close>

text \<open>
  Claim C10. A message that is empty after trimming, a turn still in flight, or (socket
  variant) a socket that does not exist yet: each sender returns at once, with the state
  it was given (messages, loading flag, step list, conversation id, and the input box of
  the home page) and without any request, frame or callback.
\<close>

theorem guarded_send_is_noop:
  "(trim txt = [] \<or> isLoading st \<longrightarrow> sendMessage p t0 t1 r txt st = (st, [], None))
   \<and> (trim txt = [] \<or> isLoading ws \<or> socket ws = None \<longrightarrow>
        ws_sendMessage t0 txt cid ws = (ws, [], None))
   \<and> (trim (input pg) = [] \<or> isLoading pg \<longrightarrow> handleSubmit p t0 t1 r pg = (pg, []))"
  by (simp add: sendMessage_def ws_sendMessage_def handleSubmit_def)

theorem guarded_send_is_noop_witness:
  "trim ''  '' = []
   \<and> sendMessage JSON_parse_sample 1 2 (streamed [] StreamDone) ''  ''
        \<lparr> messages = [], isLoading = False, currentSteps = [], conversationId = Some JNull \<rparr> =
       (\<lparr> messages = [], isLoading = False, currentSteps = [], conversationId = Some JNull \<rparr>,
        [], None)
   \<and> ws_sendMessage 1 ''hello'' None
        \<lparr> messages = [], isLoading = False, currentSteps = [], isConnected = False,
          socket = None \<rparr> =
       (\<lparr> messages = [], isLoading = False, currentSteps = [], isConnected = False,
          socket = None \<rparr>, [], None)
   \<and> handleSubmit JSON_parse_sample 1 2 (streamed [] StreamDone)
        \<lparr> messages = [], isLoading = True, currentSteps = [], input = ''hello'',
          showDataViewer = False, currentData = None \<rparr> =
       (\<lparr> messages = [], isLoading = True, currentSteps = [], input = ''hello'',
          showDataViewer = False, currentData = None \<rparr>, [])"
proof -
  have h: "trim ''  '' = []" by code_simp
  show ?thesis
    using h
      guarded_send_is_noop[of "''  ''"
        "\<lparr> messages = [], isLoading = False, currentSteps = [], conversationId = Some JNull \<rparr>"
        JSON_parse_sample 1 2 "streamed [] StreamDone"
        "\<lparr> messages = [], isLoading = False, currentSteps = [], isConnected = False,
          socket = None \<rparr>" None
        "\<lparr> messages = [], isLoading = True, currentSteps = [], input = ''hello'',
          showDataViewer = False, currentData = None \<rparr>"]
      guarded_send_is_noop[of "''hello''"
        "\<lparr> messages = [], isLoading = False, currentSteps = [], conversationId = Some JNull \<rparr>"
        JSON_parse_sample 1 2 "streamed [] StreamDone"
        "\<lparr> messages = [], isLoading = False, currentSteps = [], isConnected = False,
          socket = None \<rparr>" None
        "\<lparr> messages = [], isLoading = True, currentSteps = [], input = ''hello'',
          showDataViewer = False, currentData = None \<rparr>"]
    by simp
qed

section \<open>How a turn ends\<close>

lemma chunk_step_bare:
  assumes "is_bare_step e" "steps t = spec_steps pre"
  shows "\<exists>t'. chunk_step e t = (t', None) \<and> steps t' = spec_steps (pre @ [e]) \<and>
              trace t' = trace t @ [e] \<and> assistantContent t' = assistantContent t \<and>
              emitted t' = emitted t @ [OnStepUpdate e]"
proof -
  from assms(1) obtain a where a: "agent_name e = Some a" and c: "field e ''content'' = None"
    by (auto simp: is_step_def is_bare_step_def)
  from agent_name_SomeD[OF a] obtain kc where ek: "e = JObj kc" "field e ''agent'' = Some (JStr a)" "a \<noteq> []"
    by auto
  have tr: "truthy (field e ''agent'')" using ek by simp
  have gp: "get_prop (Some e) ''conversation_id'' = Inr (field e ''conversation_id'')" using ek by simp
  show ?thesis
    unfolding chunk_step_def gp
    using tr c upsert_spec_steps[OF a, of pre] assms(2)
    by (simp add: Let_def)
qed

lemma for_await_bare:
  assumes "\<forall>e\<in>set evs. is_bare_step e" "steps t = spec_steps pre"
  shows "\<exists>t'. for_await evs t = (t', None) \<and> steps t' = spec_steps (pre @ evs) \<and>
              trace t' = trace t @ evs \<and> assistantContent t' = assistantContent t \<and>
              emitted t' = emitted t @ map OnStepUpdate evs"
  using assms
proof (induction evs arbitrary: t pre)
  case Nil
  then show ?case by simp
next
  case (Cons e evs)
  from Cons.prems have "is_bare_step e" by simp
  from chunk_step_bare[OF this Cons.prems(2)] obtain t1 where
    t1: "chunk_step e t = (t1, None)" "steps t1 = spec_steps (pre @ [e])" "trace t1 = trace t @ [e]"
        "assistantContent t1 = assistantContent t" "emitted t1 = emitted t @ [OnStepUpdate e]"
    by blast
  from Cons.prems have "\<forall>x\<in>set evs. is_bare_step x" by simp
  from Cons.IH[OF this t1(2)] obtain t' where
    "for_await evs t1 = (t', None)" "steps t' = spec_steps ((pre @ [e]) @ evs)"
    "trace t' = trace t1 @ evs" "assistantContent t' = assistantContent t1"
    "emitted t' = emitted t1 @ map OnStepUpdate evs" by blast
  then show ?case using t1 by simp
qed

lemma page_data_bare:
  assumes "is_bare_step e" "steps t = spec_steps pre"
  shows "steps (page_data e t) = spec_steps (pre @ [e]) \<and> trace (page_data e t) = trace t @ [e]
         \<and> assistantContent (page_data e t) = assistantContent t"
proof -
  from assms(1) obtain a where a: "agent_name e = Some a" and c: "field e ''content'' = None"
    by (auto simp: is_step_def is_bare_step_def)
  from agent_name_SomeD[OF a] obtain kc where ek: "e = JObj kc" "field e ''agent'' = Some (JStr a)" "a \<noteq> []"
    by auto
  have gp: "get_prop (Some e) ''agent'' = Inr (field e ''agent'')" using ek by simp
  show ?thesis
    unfolding page_data_def gp
    using ek(2,3) c upsert_spec_steps[OF a, of pre] assms(2)
    by (simp add: Let_def)
qed

lemma fold_page_data_bare:
  assumes "\<forall>e\<in>set evs. is_bare_step e" "steps t = spec_steps pre"
  shows "steps (fold page_data evs t) = spec_steps (pre @ evs) \<and>
         trace (fold page_data evs t) = trace t @ evs \<and>
         assistantContent (fold page_data evs t) = assistantContent t"
  using assms
proof (induction evs arbitrary: t pre)
  case Nil
  then show ?case by simp
next
  case (Cons e evs)
  from Cons.prems have "is_bare_step e" by simp
  note s = page_data_bare[OF this Cons.prems(2)]
  from Cons.prems have "\<forall>x\<in>set evs. is_bare_step x" by simp
  from Cons.IH[OF this, of "page_data e t" "pre @ [e]"] s show ?case by simp
qed

lemma run_stream_generator_error: "snd gen \<noteq> None \<Longrightarrow> snd (run_stream gen t) \<noteq> None"
proof -
  assume g: "snd gen \<noteq> None"
  obtain t' y where f: "for_await (fst gen) t = (t', y)" by (cases "for_await (fst gen) t")
  show ?thesis
  proof (cases y)
    case None
    with f g show ?thesis by (simp add: run_stream_def)
  next
    case (Some e)
    with f show ?thesis by (simp add: run_stream_def)
  qed
qed

lemma sendMessage_transport_throws:
  assumes "trim txt \<noteq> []" "\<not> isLoading st"
    and "transport_throws r \<or> (\<exists>response. r = Inr response \<and> ok response \<and> body response = None)"
  shows "\<exists>e eff. sendMessage p t0 t1 r txt st =
           (st\<lparr> messages := messages st @ [userMessage t0 txt], isLoading := False,
                 currentSteps := [], conversationId := convId (fst (run_stream (chatStream p r) (turn_start (conversationId st)))) \<rparr>,
            eff @ [OnError e], Some e)"
proof -
  obtain t x where rs: "run_stream (chatStream p r) (turn_start (conversationId st)) = (t, x)"
    by (cases "run_stream (chatStream p r) (turn_start (conversationId st))")
  have "snd (chatStream p r) \<noteq> None"
    using assms(3)
    by (auto simp: transport_throws_def chatStream_def split: sum.splits option.splits stream_end.splits if_splits)
  then have "snd (run_stream (chatStream p r) (turn_start (conversationId st))) \<noteq> None"
    by (rule run_stream_generator_error)
  then have "x \<noteq> None" using rs by simp
  then obtain e where "x = Some e" by auto
  with rs assms(1,2) show ?thesis
    by (simp add: sendMessage_def Let_def)
qed

lemma handleSubmit_transport_throws:
  assumes "trim (input pg) \<noteq> []" "\<not> isLoading pg" "transport_throws r"
  shows "handleSubmit p t0 t1 r pg =
           (pg\<lparr> messages := messages pg @ [userMessage t0 (input pg)], input := [],
                 isLoading := False, currentSteps := [] \<rparr>,
            [FetchStream (Some (JStr (trim (input pg)))) None, ConsoleError, ToastError])"
  using assms
  by (auto simp: handleSubmit_def transport_throws_def Let_def
           split: sum.splits option.splits stream_end.splits if_splits prod.splits)


lemma sendMessage_clean_close:
  assumes "trim txt \<noteq> []" "\<not> isLoading st"
    and "\<forall>l\<in>set ls. CHR 0x0A \<notin> set l" "map (parse_line p) ls = map (\<lambda>e. [e]) evs"
    and "\<forall>e\<in>set evs. is_bare_step e" "concat chunks = serialize ls"
  shows "\<exists>m. messages (fst (sendMessage p t0 t1 (streamed chunks StreamDone) txt st)) =
             messages st @ [userMessage t0 txt, m]
         \<and> role m = assistant \<and> content m = Some (JStr ''I processed your request.'')
         \<and> executionTrace m = Some evs
         \<and> snd (sendMessage p t0 t1 (streamed chunks StreamDone) txt st) =
             (FetchStream (Some (JStr txt))
                (if truthy (conversationId st) then conversationId st else None)
                # map OnStepUpdate evs, None)"
proof -
  have ev: "concat (map (parse_line p) ls) = evs" using assms(4) by simp
  have cs: "chatStream p (streamed chunks StreamDone) = (evs, None)"
    using chatStream_lines[OF assms(3) assms(6), of p StreamDone] ev
    by (simp add: chatStream_streamed)
  have "steps (turn_start (conversationId st)) = spec_steps []"
    by (simp add: turn_start_def spec_steps_Nil)
  from for_await_bare[OF assms(5) this] obtain t' where
    t': "for_await evs (turn_start (conversationId st)) = (t', None)"
        "trace t' = trace (turn_start (conversationId st)) @ evs"
        "assistantContent t' = assistantContent (turn_start (conversationId st))"
        "emitted t' = emitted (turn_start (conversationId st)) @ map OnStepUpdate evs"
    by blast
  have rs: "run_stream (chatStream p (streamed chunks StreamDone)) (turn_start (conversationId st)) = (t', None)"
    using cs t' by (simp add: run_stream_def)
  have em: "emitted t' = map OnStepUpdate evs" using t'(4) by (simp add: turn_start_def)
  have R: "messages (fst (sendMessage p t0 t1 (streamed chunks StreamDone) txt st)) =
             messages st @ [userMessage t0 txt, assistantMessage t1 t']"
     "snd (sendMessage p t0 t1 (streamed chunks StreamDone) txt st) =
             (FetchStream (Some (JStr txt))
                (if truthy (conversationId st) then conversationId st else None)
                # map OnStepUpdate evs, None)"
    using assms(1,2) em
    by (simp_all add: sendMessage_def Let_def rs)
  have M: "role (assistantMessage t1 t') = assistant"
     "content (assistantMessage t1 t') = Some (JStr ''I processed your request.'')"
     "executionTrace (assistantMessage t1 t') = Some evs"
    using t'(2,3) by (simp_all add: assistantMessage_def or_default_def turn_start_def)
  show ?thesis using R M by blast
qed

lemma handleSubmit_clean_close:
  assumes "trim (input pg) \<noteq> []" "\<not> isLoading pg"
    and "\<forall>l\<in>set ls. CHR 0x0A \<notin> set l" "map (parse_line p) ls = map (\<lambda>e. [e]) evs"
    and "\<forall>e\<in>set evs. is_bare_step e"
  shows "\<exists>m pt. messages (fst (handleSubmit p t0 t1 (streamed [serialize ls] StreamDone) pg)) =
             messages pg @ [userMessage t0 (input pg), m]
         \<and> role m = assistant \<and> content m = Some (JStr ''I processed your request.'')
         \<and> executionTrace m = Some evs
         \<and> snd (handleSubmit p t0 t1 (streamed [serialize ls] StreamDone) pg) =
             [FetchStream (Some (JStr (trim (input pg)))) None, ToastSuccess pt]"
proof -
  let ?t = "page_loop p [serialize ls] (turn_start None)"
  have ev: "concat (map (parse_line p) ls) = evs" using assms(4) by simp
  have pl: "?t = fold page_data evs (turn_start None)"
    using page_loop_serialize[OF assms(3), of p] ev by simp
  have "steps (turn_start None) = spec_steps []"
    by (simp add: turn_start_def spec_steps_Nil)
  from fold_page_data_bare[OF assms(5) this]
  have t': "trace ?t = evs" "assistantContent ?t = Some (JStr [])"
    unfolding pl by (simp_all add: turn_start_def)
  have R: "messages (fst (handleSubmit p t0 t1 (streamed [serialize ls] StreamDone) pg)) =
             messages pg @ [userMessage t0 (input pg), assistantMessage t1 ?t]"
     "snd (handleSubmit p t0 t1 (streamed [serialize ls] StreamDone) pg) =
             [FetchStream (Some (JStr (trim (input pg)))) None, ToastSuccess (procTime ?t)]"
    using assms(1,2)
    by (simp_all add: handleSubmit_def Let_def streamed_def del: page_loop.simps)
  have M: "role (assistantMessage t1 ?t) = assistant"
     "content (assistantMessage t1 ?t) = Some (JStr ''I processed your request.'')"
     "executionTrace (assistantMessage t1 ?t) = Some evs"
    using t'(1,2) by (simp_all add: assistantMessage_def or_default_def del: page_loop.simps)
  show ?thesis using R M by blast
qed


text \<open>
  Claim C4, as the code has it. When the transport throws under a started turn (rejected
  fetch, non-2xx response, rejected read), \<^verbatim>\<open>useChat\<close> calls \<^verbatim>\<open>onError\<close> and rejects with the
  error, the home page shows its error toast, and neither appends an assistant message.
  When the stream instead ends cleanly after step events only, with no terminal payload,
  both complete without any error and append an assistant message whose text is the
  placeholder.
\<close>

theorem turn_ends_with_error_or_placeholder:
  assumes "trim txt \<noteq> []" and "\<not> isLoading st" and "input pg = txt" and "\<not> isLoading pg"
  shows "(transport_throws r \<longrightarrow>
            (\<exists>e eff. snd (sendMessage p t0 t1 r txt st) = (eff @ [OnError e], Some e))
          \<and> messages (fst (sendMessage p t0 t1 r txt st)) = messages st @ [userMessage t0 txt]
          \<and> snd (handleSubmit p t0 t1 r pg) =
              [FetchStream (Some (JStr (trim txt))) None, ConsoleError, ToastError]
          \<and> messages (fst (handleSubmit p t0 t1 r pg)) = messages pg @ [userMessage t0 txt])
       \<and> ((\<forall>l\<in>set ls. CHR 0x0A \<notin> set l) \<and> map (parse_line p) ls = map (\<lambda>e. [e]) evs
            \<and> (\<forall>e\<in>set evs. is_bare_step e) \<longrightarrow>
            (\<exists>m. messages (fst (sendMessage p t0 t1 (streamed [serialize ls] StreamDone) txt st)) =
                    messages st @ [userMessage t0 txt, m]
                 \<and> role m = assistant \<and> content m = Some (JStr ''I processed your request.''))
          \<and> snd (snd (sendMessage p t0 t1 (streamed [serialize ls] StreamDone) txt st)) = None
          \<and> (\<forall>e. OnError e \<notin>
                 set (fst (snd (sendMessage p t0 t1 (streamed [serialize ls] StreamDone) txt st))))
          \<and> (\<exists>m. messages (fst (handleSubmit p t0 t1 (streamed [serialize ls] StreamDone) pg)) =
                    messages pg @ [userMessage t0 txt, m]
                 \<and> role m = assistant \<and> content m = Some (JStr ''I processed your request.''))
          \<and> ToastError \<notin> set (snd (handleSubmit p t0 t1 (streamed [serialize ls] StreamDone) pg)))"
proof (intro conjI impI)
  assume tt: "transport_throws r"
  from sendMessage_transport_throws[OF assms(1,2), of r p t0 t1] tt
  obtain e eff where
    R: "sendMessage p t0 t1 r txt st =
           (st\<lparr> messages := messages st @ [userMessage t0 txt], isLoading := False,
                 currentSteps := [],
                 conversationId := convId (fst (run_stream (chatStream p r) (turn_start (conversationId st)))) \<rparr>,
            eff @ [OnError e], Some e)" by blast
  show "\<exists>e eff. snd (sendMessage p t0 t1 r txt st) = (eff @ [OnError e], Some e)"
    using R by auto
  show "messages (fst (sendMessage p t0 t1 r txt st)) = messages st @ [userMessage t0 txt]"
    using R by simp
  have ip: "trim (input pg) \<noteq> []" using assms(1,3) by simp
  note H = handleSubmit_transport_throws[OF ip assms(4) tt, of p t0 t1]
  show "snd (handleSubmit p t0 t1 r pg) =
              [FetchStream (Some (JStr (trim txt))) None, ConsoleError, ToastError]"
    using H assms(3) by simp
  show "messages (fst (handleSubmit p t0 t1 r pg)) = messages pg @ [userMessage t0 txt]"
    using H assms(3) by simp
next
  assume h: "(\<forall>l\<in>set ls. CHR 0x0A \<notin> set l) \<and> map (parse_line p) ls = map (\<lambda>e. [e]) evs
            \<and> (\<forall>e\<in>set evs. is_bare_step e)"
  then have h1: "\<forall>l\<in>set ls. CHR 0x0A \<notin> set l" and h2: "map (parse_line p) ls = map (\<lambda>e. [e]) evs"
    and h3: "\<forall>e\<in>set evs. is_bare_step e" by blast+
  have cc: "concat [serialize ls] = serialize ls" by simp
  note S = sendMessage_clean_close[OF assms(1,2) h1 h2 h3 cc, of t0 t1]
  show "\<exists>m. messages (fst (sendMessage p t0 t1 (streamed [serialize ls] StreamDone) txt st)) =
                    messages st @ [userMessage t0 txt, m]
                 \<and> role m = assistant \<and> content m = Some (JStr ''I processed your request.'')"
    using S by blast
  show "snd (snd (sendMessage p t0 t1 (streamed [serialize ls] StreamDone) txt st)) = None"
    using S by auto
  show "\<forall>e. OnError e \<notin>
                 set (fst (snd (sendMessage p t0 t1 (streamed [serialize ls] StreamDone) txt st)))"
    using S by auto
  have ip: "trim (input pg) \<noteq> []" using assms(1,3) by simp
  note H = handleSubmit_clean_close[OF ip assms(4) h1 h2 h3, of t0 t1]
  show "\<exists>m. messages (fst (handleSubmit p t0 t1 (streamed [serialize ls] StreamDone) pg)) =
                    messages pg @ [userMessage t0 txt, m]
                 \<and> role m = assistant \<and> content m = Some (JStr ''I processed your request.'')"
    using H assms(3) by auto
  show "ToastError \<notin> set (snd (handleSubmit p t0 t1 (streamed [serialize ls] StreamDone) pg))"
    using H by auto
qed

theorem turn_ends_with_error_or_placeholder_witness:
  \<open>transport_throws (Inl NetworkError)
   \<and> is_bare_step (JObj [(''agent'', JStr ''a''), (''status'', JStr ''running'')])
   \<and> messages (fst (sendMessage JSON_parse_sample 1 2 (Inl NetworkError) ''ping''
        \<lparr> messages = [], isLoading = False, currentSteps = [], conversationId = Some JNull \<rparr>)) =
       [userMessage 1 ''ping'']
   \<and> snd (handleSubmit JSON_parse_sample 1 2 (Inl NetworkError)
        \<lparr> messages = [], isLoading = False, currentSteps = [], input = ''ping'',
          showDataViewer = False, currentData = None \<rparr>) =
       [FetchStream (Some (JStr ''ping'')) None, ConsoleError, ToastError]
   \<and> snd (snd (sendMessage JSON_parse_sample 1 2
        (streamed [serialize [''data: {"agent":"a","status":"running"}'']] StreamDone) ''ping''
        \<lparr> messages = [], isLoading = False, currentSteps = [], conversationId = Some JNull \<rparr>)) =
       None
   \<and> ToastError \<notin> set (snd (handleSubmit JSON_parse_sample 1 2
        (streamed [serialize [''data: {"agent":"a","status":"running"}'']] StreamDone)
        \<lparr> messages = [], isLoading = False, currentSteps = [], input = ''ping'',
          showDataViewer = False, currentData = None \<rparr>))\<close>
proof -
  let ?st = "\<lparr> messages = [], isLoading = False, currentSteps = [], conversationId = Some JNull \<rparr>"
  let ?pg = "\<lparr> messages = [], isLoading = False, currentSteps = [], input = ''ping'',
          showDataViewer = False, currentData = None \<rparr>"
  let ?ls = \<open>[''data: {"agent":"a","status":"running"}'']\<close>
  let ?evs = "[JObj [(''agent'', JStr ''a''), (''status'', JStr ''running'')]]"
  have a1: "trim ''ping'' \<noteq> []" by code_simp
  have a2: "\<not> isLoading ?st" by simp
  have a3: "input ?pg = ''ping''" by simp
  have a4: "\<not> isLoading ?pg" by simp
  have h0: "transport_throws (Inl NetworkError)" by (simp add: transport_throws_def)
  have h1: "\<forall>l\<in>set ?ls. CHR 0x0A \<notin> set l" by code_simp
  have h2: "map (parse_line JSON_parse_sample) ?ls = map (\<lambda>e. [e]) ?evs" by code_simp
  have h3: "\<forall>e\<in>set ?evs. is_bare_step e" by code_simp
  have t: "trim ''ping'' = ''ping''" by code_simp
  note main = turn_ends_with_error_or_placeholder[OF a1 a2 a3 a4,
      of "Inl NetworkError" JSON_parse_sample 1 2 ?ls ?evs]
  have A: "messages (fst (sendMessage JSON_parse_sample 1 2 (Inl NetworkError) ''ping'' ?st)) =
       [userMessage 1 ''ping'']"
    using main h0 by simp
  have B: "snd (handleSubmit JSON_parse_sample 1 2 (Inl NetworkError) ?pg) =
       [FetchStream (Some (JStr ''ping'')) None, ConsoleError, ToastError]"
    using main h0 t by simp
  have C: "snd (snd (sendMessage JSON_parse_sample 1 2 (streamed [serialize ?ls] StreamDone)
        ''ping'' ?st)) = None"
    using main h1 h2 h3 by blast
  have D: "ToastError \<notin> set (snd (handleSubmit JSON_parse_sample 1 2
        (streamed [serialize ?ls] StreamDone) ?pg))"
    using main h1 h2 h3 by blast
  show ?thesis using h0 h3 A B C D by simp
qed

text \<open>
  Claim C4, as stated, fails: the stream ends cleanly after a single step event and no
  terminal payload. \<^verbatim>\<open>sendMessage\<close> settles without an error and without calling
  \<^verbatim>\<open>onError\<close>, the home page shows its success toast, and both append the placeholder as
  the assistant's message.
\<close>

theorem silent_placeholder_counterexample:
  \<open>snd (sendMessage JSON_parse_sample 1 2
        (streamed [''data: {"agent":"a","status":"running"}'' @ [CHR 0x0A]] StreamDone) ''ping''
        \<lparr> messages = [], isLoading = False, currentSteps = [], conversationId = Some JNull \<rparr>) =
     ([FetchStream (Some (JStr ''ping'')) None,
       OnStepUpdate (JObj [(''agent'', JStr ''a''), (''status'', JStr ''running'')])], None)
   \<and> map content (messages (fst (sendMessage JSON_parse_sample 1 2
        (streamed [''data: {"agent":"a","status":"running"}'' @ [CHR 0x0A]] StreamDone) ''ping''
        \<lparr> messages = [], isLoading = False, currentSteps = [], conversationId = Some JNull \<rparr>))) =
     [Some (JStr ''ping''), Some (JStr ''I processed your request.'')]
   \<and> snd (handleSubmit JSON_parse_sample 1 2
        (streamed [''data: {"agent":"a","status":"running"}'' @ [CHR 0x0A]] StreamDone)
        \<lparr> messages = [], isLoading = False, currentSteps = [], input = ''ping'',
          showDataViewer = False, currentData = None \<rparr>) =
     [FetchStream (Some (JStr ''ping'')) None, ToastSuccess (Some (JNum 0))]
   \<and> map content (messages (fst (handleSubmit JSON_parse_sample 1 2
        (streamed [''data: {"agent":"a","status":"running"}'' @ [CHR 0x0A]] StreamDone)
        \<lparr> messages = [], isLoading = False, currentSteps = [], input = ''ping'',
          showDataViewer = False, currentData = None \<rparr>))) =
     [Some (JStr ''ping''), Some (JStr ''I processed your request.'')]\<close>
  by code_simp

section \<open>The loading flag at the end of a turn\<close>

lemma sendMessage_unblocks:
  assumes "trim txt \<noteq> []" "\<not> isLoading st"
  shows "\<not> isLoading (fst (sendMessage p t0 t1 r txt st)) \<and>
         currentSteps (fst (sendMessage p t0 t1 r txt st)) = []"
proof -
  obtain t x where rs: "run_stream (chatStream p r) (turn_start (conversationId st)) = (t, x)"
    by (cases "run_stream (chatStream p r) (turn_start (conversationId st))")
  show ?thesis using assms rs by (cases x) (simp_all add: sendMessage_def Let_def)
qed

lemma handleSubmit_unblocks:
  "\<not> isLoading pg \<Longrightarrow> \<not> isLoading (fst (handleSubmit p t0 t1 r pg)) \<and>
     (trim (input pg) \<noteq> [] \<longrightarrow> currentSteps (fst (handleSubmit p t0 t1 r pg)) = [])"
  by (auto simp: handleSubmit_def Let_def simp del: page_loop.simps
           split: sum.splits option.splits stream_end.splits prod.splits)

lemma ws_response_unblocks:
  assumes "p m = Some d" "field d ''type'' = Some (JStr ''response'')"
    and "field d ''data'' = Some (JObj kvs)"
  shows "\<not> isLoading (fst (ws_onmessage p now m st)) \<and>
         currentSteps (fst (ws_onmessage p now m st)) = []"
proof -
  from assms(2) have "d \<noteq> JNull" by auto
  then have gp: "get_prop (Some d) ''type'' = Inr (Some (JStr ''response''))"
    using assms(2) by (cases d) auto
  show ?thesis
    using assms(1,3) by (simp add: ws_onmessage_def gp Let_def)
qed

lemma ws_error_unblocks:
  assumes "p m = Some d" "field d ''type'' = Some (JStr ''error'')"
    and "field d ''data'' = Some (JObj kvs)"
  shows "\<not> isLoading (fst (ws_onmessage p now m st)) \<and>
         currentSteps (fst (ws_onmessage p now m st)) = []"
proof -
  from assms(2) have "d \<noteq> JNull" by auto
  then have gp: "get_prop (Some d) ''type'' = Inr (Some (JStr ''error''))"
    using assms(2) by (cases d) auto
  show ?thesis
    using assms(1,3) by (simp add: ws_onmessage_def gp Let_def)
qed

lemma ws_onclose_keeps_turn:
  "isLoading (ws_onclose st) = isLoading st \<and> currentSteps (ws_onclose st) = currentSteps st"
  by (simp add: ws_onclose_def)

text \<open>
  Claim C5 on the socket's \<^verbatim>\<open>onclose\<close>. The HTTP senders clear the loading flag and the
  step list on every path (\<open>sendMessage_unblocks\<close>, \<open>handleSubmit_unblocks\<close>), and so
  do the socket's \<^verbatim>\<open>response\<close> and \<^verbatim>\<open>error\<close> messages; \<^verbatim>\<open>onclose\<close> only records the
  disconnection. The run: the socket opens, a message is sent, one step arrives, the
  connection closes. The turn is over, yet the flag is still set and the step is still
  listed; and with the flag set, the next \<^verbatim>\<open>sendMessage\<close> does nothing.
\<close>

theorem socket_close_leaves_loading:
  \<open>isLoading (ws_onclose (fst (ws_onmessage JSON_parse_sample 2
       ''{"type":"step","data":{"agent":"a","status":"running"}}''
       (fst (ws_sendMessage 1 ''ping'' None
          (ws_onopen \<lparr> messages = [], isLoading = False, currentSteps = [],
                       isConnected = False, socket = Some CONNECTING \<rparr>))))))
   \<and> currentSteps (ws_onclose (fst (ws_onmessage JSON_parse_sample 2
       ''{"type":"step","data":{"agent":"a","status":"running"}}''
       (fst (ws_sendMessage 1 ''ping'' None
          (ws_onopen \<lparr> messages = [], isLoading = False, currentSteps = [],
                       isConnected = False, socket = Some CONNECTING \<rparr>)))))) =
      [Some (JObj [(''agent'', JStr ''a''), (''status'', JStr ''running'')])]
   \<and> ws_sendMessage 3 ''again'' None (ws_onclose (fst (ws_onmessage JSON_parse_sample 2
       ''{"type":"step","data":{"agent":"a","status":"running"}}''
       (fst (ws_sendMessage 1 ''ping'' None
          (ws_onopen \<lparr> messages = [], isLoading = False, currentSteps = [],
                       isConnected = False, socket = Some CONNECTING \<rparr>)))))) =
      (ws_onclose (fst (ws_onmessage JSON_parse_sample 2
       ''{"type":"step","data":{"agent":"a","status":"running"}}''
       (fst (ws_sendMessage 1 ''ping'' None
          (ws_onopen \<lparr> messages = [], isLoading = False, currentSteps = [],
                       isConnected = False, socket = Some CONNECTING \<rparr>))))), [], None)\<close>
  by code_simp

section \<open>Failed uploads\<close>

lemma modal_failed_upload_is_reported:
  assumes "UploadedFile.status uploadFile = pending" "upload_fails (net uploadFile)"
    and "f \<in> set (files (modal_upload_one net uploadFile run))" "file_id f = file_id uploadFile"
  shows "UploadedFile.status f = failed \<and>
         UploadedFile.error f = Some ''Upload failed. Please try again.''"
  using assms
  by (auto simp: modal_upload_one_def upload_fails_def update_file_def Let_def
           split: sum.splits prod.splits if_splits)

lemma inline_failed_upload_is_completed:
  assumes "UploadedFile.status uploadFile = pending" "upload_fails (snd (snd (net uploadFile)))"
    and "f \<in> set (files (inline_upload_one net uploadFile run))" "file_id f = file_id uploadFile"
  shows "UploadedFile.status f = completed \<and> UploadedFile.progress f = 100"
  using assms
  by (auto simp: inline_upload_one_def upload_fails_def update_file_def Let_def
           split: sum.splits prod.splits if_splits)

text \<open>
  Claim C8 on the inline upload flow. One pending file is uploaded and \<^verbatim>\<open>fetch\<close> rejects
  (or, second run, the server answers with a non-2xx status). The \<^verbatim>\<open>catch\<close> block of the
  inline flow marks the file completed at 100 percent, records no error and counts it as
  completed; the modal flow, on the same input, marks it failed with an error message.
\<close>

theorem inline_upload_marks_failure_completed:
  "files (inline_uploadFiles (\<lambda>f. (2, 5, Inl NetworkError))
      \<lparr> files = [\<lparr> file_id = ''f1'', file_obj = ''report.pdf'', status = pending, progress = 0,
                    error = None, jobId = None \<rparr>],
        isUploading = False, timers = [], intervals = [], completedCount = 0 \<rparr>) =
     [\<lparr> file_id = ''f1'', file_obj = ''report.pdf'', status = completed, progress = 100,
        error = None, jobId = None \<rparr>]
   \<and> completedCount (inline_uploadFiles (\<lambda>f. (2, 5, Inl NetworkError))
      \<lparr> files = [\<lparr> file_id = ''f1'', file_obj = ''report.pdf'', status = pending, progress = 0,
                    error = None, jobId = None \<rparr>],
        isUploading = False, timers = [], intervals = [], completedCount = 0 \<rparr>) = 1
   \<and> files (inline_uploadFiles (\<lambda>f. (2, 0, Inr (False, None)))
      \<lparr> files = [\<lparr> file_id = ''f1'', file_obj = ''report.pdf'', status = pending, progress = 0,
                    error = None, jobId = None \<rparr>],
        isUploading = False, timers = [], intervals = [], completedCount = 0 \<rparr>) =
     [\<lparr> file_id = ''f1'', file_obj = ''report.pdf'', status = completed, progress = 100,
        error = None, jobId = None \<rparr>]
   \<and> files (modal_uploadFiles (\<lambda>f. Inl NetworkError)
      \<lparr> files = [\<lparr> file_id = ''f1'', file_obj = ''report.pdf'', status = pending, progress = 0,
                    error = None, jobId = None \<rparr>],
        isUploading = False, timers = [], intervals = [], completedCount = 0 \<rparr>) =
     [\<lparr> file_id = ''f1'', file_obj = ''report.pdf'', status = failed, progress = 0,
        error = Some ''Upload failed. Please try again.'', jobId = None \<rparr>]"
  by code_simp

section \<open>The polling loop\<close>

lemma strict_eq_JStr: "strict_eq v (Some (JStr s)) = (v = Some (JStr s))"
  by (cases v; cases "the v") auto

lemma poll_error: "poll iv j (Inl e) st = (st, [OnStatusError e])"
  by (simp add: poll_def)

lemma poll_terminal:
  "terminal_status stat \<Longrightarrow>
     fst (poll iv j (Inr stat) st) = st\<lparr> jobs := AList.update j stat (jobs st) \<rparr>"
  by (cases stat) (auto simp: poll_def terminal_status_def Let_def strict_eq_JStr)

lemma poll_not_terminal:
  "\<not> terminal_status (JObj kvs) \<Longrightarrow>
     fst (poll iv j (Inr (JObj kvs)) st) =
       st\<lparr> jobs := AList.update j (JObj kvs) (jobs st),
           scheduled := scheduled st @ [(j, interval_of iv)] \<rparr>"
  by (auto simp: poll_def terminal_status_def Let_def strict_eq_JStr)

text \<open>
  Claim C9, as the code has it. A poll that observes completed or failed, or whose request
  throws, schedules nothing further: the timer queue is as it was. Every other answer
  schedules exactly one more poll of the job, without bound. There is no cancellation:
  \<^verbatim>\<open>clearJobs\<close> empties the job map and leaves the timer queue alone, and when a timer of
  the queue fires afterwards its poll writes the job back into the map.
\<close>

theorem polling_stops_only_on_terminal_status:
  "(terminal_status stat \<longrightarrow> scheduled (fst (poll iv j (Inr stat) st)) = scheduled st)
   \<and> fst (poll iv j (Inl e) st) = st
   \<and> (\<not> terminal_status (JObj kvs) \<longrightarrow>
        scheduled (fst (poll iv j (Inr (JObj kvs)) st)) = scheduled st @ [(j, interval_of iv)])
   \<and> jobs (clearJobs st) = [] \<and> scheduled (clearJobs st) = scheduled st
   \<and> (map_of (scheduled st) j = Some d \<longrightarrow>
        jobs (fst (timer_fires iv j (Inr (JObj kvs)) (clearJobs st))) = [(j, JObj kvs)])"
proof -
  have A: "terminal_status stat \<longrightarrow> scheduled (fst (poll iv j (Inr stat) st)) = scheduled st"
    by (simp add: poll_terminal)
  have B: "fst (poll iv j (Inl e) st) = st" by (simp add: poll_error)
  have C: "\<not> terminal_status (JObj kvs) \<longrightarrow>
        scheduled (fst (poll iv j (Inr (JObj kvs)) st)) = scheduled st @ [(j, interval_of iv)]"
    by (simp add: poll_not_terminal)
  have D: "jobs (clearJobs st) = [] \<and> scheduled (clearJobs st) = scheduled st"
    by (simp add: clearJobs_def)
  have E: "map_of (scheduled st) j = Some d \<longrightarrow>
        jobs (fst (timer_fires iv j (Inr (JObj kvs)) (clearJobs st))) = [(j, JObj kvs)]"
  proof
    assume m: "map_of (scheduled st) j = Some d"
    show "jobs (fst (timer_fires iv j (Inr (JObj kvs)) (clearJobs st))) = [(j, JObj kvs)]"
    proof (cases "terminal_status (JObj kvs)")
      case True
      then show ?thesis using m
        by (simp add: timer_fires_def clearJobs_def poll_terminal)
    next
      case False
      then show ?thesis using m
        by (simp add: timer_fires_def clearJobs_def poll_not_terminal)
    qed
  qed
  show ?thesis using A B C D E by blast
qed

theorem polling_stops_only_on_terminal_status_witness:
  "terminal_status (JObj [(''job_id'', JStr ''j1''), (''status'', JStr ''completed'')])
   \<and> \<not> terminal_status (JObj [(''job_id'', JStr ''j1''), (''status'', JStr ''processing'')])
   \<and> scheduled (fst (poll None ''j1''
        (Inr (JObj [(''job_id'', JStr ''j1''), (''status'', JStr ''completed'')]))
        \<lparr> jobs = [], scheduled = [(''j2'', 2000)] \<rparr>)) = [(''j2'', 2000)]
   \<and> scheduled (fst (poll None ''j1''
        (Inr (JObj [(''job_id'', JStr ''j1''), (''status'', JStr ''processing'')]))
        \<lparr> jobs = [], scheduled = [(''j2'', 2000)] \<rparr>)) = [(''j2'', 2000), (''j1'', 2000)]
   \<and> jobs (fst (timer_fires None ''j2''
        (Inr (JObj [(''job_id'', JStr ''j1''), (''status'', JStr ''processing'')]))
        (clearJobs \<lparr> jobs = [], scheduled = [(''j2'', 2000)] \<rparr>))) =
       [(''j2'', JObj [(''job_id'', JStr ''j1''), (''status'', JStr ''processing'')])]"
proof -
  let ?done = "JObj [(''job_id'', JStr ''j1''), (''status'', JStr ''completed'')]"
  let ?kvs = "[(''job_id'', JStr ''j1''), (''status'', JStr ''processing'')]"
  let ?st = "\<lparr> jobs = [], scheduled = [(''j2'', 2000::nat)] \<rparr>"
  have h1: "terminal_status ?done" by code_simp
  have h2: "\<not> terminal_status (JObj ?kvs)" by code_simp
  have i: "interval_of None = 2000" by (simp add: interval_of_def)
  note a = polling_stops_only_on_terminal_status[of ?done None "''j1''" ?st NetworkError ?kvs 2000]
  note b = polling_stops_only_on_terminal_status[of ?done None "''j2''" ?st NetworkError ?kvs 2000]
  have A: "scheduled (fst (poll None ''j1'' (Inr ?done) ?st)) = [(''j2'', 2000)]"
    using a h1 by simp
  have B: "scheduled (fst (poll None ''j1'' (Inr (JObj ?kvs)) ?st)) = [(''j2'', 2000), (''j1'', 2000)]"
    using a h2 i by simp
  have C: "jobs (fst (timer_fires None ''j2'' (Inr (JObj ?kvs)) (clearJobs ?st))) = [(''j2'', JObj ?kvs)]"
    using b by simp
  show ?thesis using h1 h2 A B C by simp
qed

text \<open>
  Claim C9, as stated, fails: a job is being polled and one timer is pending when
  \<^verbatim>\<open>clearJobs\<close> is called. The timer is still pending afterwards; when it fires, the poll
  puts the job back into the emptied map and schedules the next timer.
\<close>

theorem poll_after_clearJobs_counterexample:
  "clearJobs \<lparr> jobs = [(''j1'', JObj [(''job_id'', JStr ''j1''), (''status'', JStr ''pending'')])],
               scheduled = [(''j1'', 2000)] \<rparr> =
     \<lparr> jobs = [], scheduled = [(''j1'', 2000)] \<rparr>
   \<and> fst (timer_fires None ''j1''
        (Inr (JObj [(''job_id'', JStr ''j1''), (''status'', JStr ''processing'')]))
        (clearJobs \<lparr> jobs = [(''j1'', JObj [(''job_id'', JStr ''j1''), (''status'', JStr ''pending'')])],
                     scheduled = [(''j1'', 2000)] \<rparr>)) =
     \<lparr> jobs = [(''j1'', JObj [(''job_id'', JStr ''j1''), (''status'', JStr ''processing'')])],
       scheduled = [(''j1'', 2000)] \<rparr>"
  by code_simp

section \<open>The two transports side by side\<close>

lemma chunk_step_plain:
  assumes "is_plain_step e" "steps t = spec_steps pre"
  shows "\<exists>t'. chunk_step e t = (t', None) \<and> steps t' = spec_steps (pre @ [e]) \<and>
              trace t' = trace t @ [e] \<and> assistantContent t' = assistantContent t \<and>
              responseData t' = responseData t \<and> procTime t' = procTime t"
proof -
  from assms(1) obtain a where a: "agent_name e = Some a" and c: "field e ''content'' = None"
      "field e ''response_type'' = None" "field e ''processing_time_ms'' = None"
    by (auto simp: is_step_def is_plain_step_def)
  from agent_name_SomeD[OF a] obtain kc where ek: "e = JObj kc" "field e ''agent'' = Some (JStr a)" "a \<noteq> []"
    by auto
  have tr: "truthy (field e ''agent'')" using ek by simp
  have gp: "get_prop (Some e) ''conversation_id'' = Inr (field e ''conversation_id'')" using ek by simp
  show ?thesis
    unfolding chunk_step_def gp
    using tr c upsert_spec_steps[OF a, of pre] assms(2)
    by (simp add: Let_def)
qed

lemma for_await_plain:
  assumes "\<forall>e\<in>set evs. is_plain_step e" "steps t = spec_steps pre"
  shows "\<exists>t'. for_await evs t = (t', None) \<and> steps t' = spec_steps (pre @ evs) \<and>
              trace t' = trace t @ evs \<and> assistantContent t' = assistantContent t \<and>
              responseData t' = responseData t \<and> procTime t' = procTime t"
  using assms
proof (induction evs arbitrary: t pre)
  case Nil
  then show ?case by simp
next
  case (Cons e evs)
  from Cons.prems have "is_plain_step e" by simp
  from chunk_step_plain[OF this Cons.prems(2)] obtain t1 where
    t1: "chunk_step e t = (t1, None)" "steps t1 = spec_steps (pre @ [e])" "trace t1 = trace t @ [e]"
        "assistantContent t1 = assistantContent t" "responseData t1 = responseData t"
        "procTime t1 = procTime t"
    by blast
  from Cons.prems have "\<forall>x\<in>set evs. is_plain_step x" by simp
  from Cons.IH[OF this t1(2)] obtain t' where
    "for_await evs t1 = (t', None)" "steps t' = spec_steps ((pre @ [e]) @ evs)"
    "trace t' = trace t1 @ evs" "assistantContent t' = assistantContent t1"
    "responseData t' = responseData t1" "procTime t' = procTime t1" by blast
  then show ?case using t1 by simp
qed

lemma chunk_step_terminal_chunk:
  "\<exists>t'. chunk_step (terminal_chunk text ms) t = (t', None) \<and> steps t' = steps t \<and>
         trace t' = trace t \<and> assistantContent t' = Some (JStr text) \<and>
         responseData t' = responseData t \<and>
         procTime t' = (if ms = 0 then procTime t else Some (JNum ms))"
  by (simp add: chunk_step_def terminal_chunk_def Let_def)

lemma ws_receive_all_append:
  "ws_receive_all p (xs @ ys) st = ws_receive_all p ys (ws_receive_all p xs st)"
  by (simp add: ws_receive_all_def)

lemma ws_onmessage_step:
  assumes "p m = Some (step_envelope e)" "is_step e" "currentSteps st = spec_steps pre"
  shows "fst (ws_onmessage p now m st) = st\<lparr> currentSteps := spec_steps (pre @ [e]) \<rparr>"
proof -
  from assms(2) obtain a where a: "agent_name e = Some a" by (auto simp: is_step_def)
  show ?thesis
    using assms(1,3) upsert_spec_steps[OF a, of pre]
    by (simp add: ws_onmessage_def step_envelope_def Let_def)
qed

lemma ws_receive_steps:
  assumes "map (\<lambda>(now, m). p m) msgs = map (\<lambda>e. Some (step_envelope e)) evs"
    and "\<forall>e\<in>set evs. is_step e" "currentSteps st = spec_steps pre"
  shows "ws_receive_all p msgs st = st\<lparr> currentSteps := spec_steps (pre @ evs) \<rparr>"
  using assms
proof (induction evs arbitrary: msgs st pre)
  case Nil
  then show ?case by (simp add: ws_receive_all_def)
next
  case (Cons e evs)
  from Cons.prems(1) obtain now m rest where msgs: "msgs = (now, m) # rest"
    and m: "p m = Some (step_envelope e)"
    and rest: "map (\<lambda>(now, m). p m) rest = map (\<lambda>e. Some (step_envelope e)) evs"
    by (cases msgs) auto
  from Cons.prems have e: "is_step e" and es: "\<forall>x\<in>set evs. is_step x" by simp_all
  let ?st1 = "st\<lparr> currentSteps := spec_steps (pre @ [e]) \<rparr>"
  have s1: "fst (ws_onmessage p now m st) = ?st1"
    using ws_onmessage_step[of p m e st pre now] m e Cons.prems(3) by simp
  have "ws_receive_all p msgs st = ws_receive_all p rest ?st1"
    using msgs s1 by (simp add: ws_receive_all_def)
  also have "\<dots> = ?st1\<lparr> currentSteps := spec_steps ((pre @ [e]) @ evs) \<rparr>"
    using Cons.IH[of rest ?st1 "pre @ [e]"] rest es by simp
  finally show ?case by simp
qed

lemma ws_onmessage_response:
  assumes "p m = Some (response_envelope text ms)"
  shows "fst (ws_onmessage p now m st) =
           st\<lparr> messages := messages st @
                  [\<lparr> msg_id = now, role = assistant, content = Some (JStr text), timestamp = now,
                     data = Some JNull, executionTrace = None,
                     processingTime = Some (JNum ms) \<rparr>],
               isLoading := False, currentSteps := [] \<rparr>"
  using assms by (simp add: ws_onmessage_def response_envelope_def Let_def)


lemma http_turn_result:
  assumes "\<forall>e\<in>set evs. is_plain_step e" and "text \<noteq> []"
    and "trim txt \<noteq> []" "\<not> isLoading st"
    and "\<forall>l\<in>set ls. CHR 0x0A \<notin> set l" "concat chunks = serialize ls"
    and "map (parse_line p) ls = map (\<lambda>e. [e]) (evs @ [terminal_chunk text ms])"
  shows "\<exists>cid'. http_turn p t0 t1 chunks txt st =
           st\<lparr> messages := messages st @
                  [userMessage t0 txt,
                   \<lparr> msg_id = t1 + 1, role = assistant, content = Some (JStr text),
                     timestamp = t1, data = Some JNull, executionTrace = Some evs,
                     processingTime = Some (JNum ms) \<rparr>],
               isLoading := False, currentSteps := [], conversationId := cid' \<rparr>"
proof -
  let ?t0 = "turn_start (conversationId st)"
  have ev: "concat (map (parse_line p) ls) = evs @ [terminal_chunk text ms]"
    using assms(7) by simp
  have cs: "chatStream p (streamed chunks StreamDone) = (evs @ [terminal_chunk text ms], None)"
    using chatStream_lines[OF assms(5) assms(6), of p StreamDone] ev
    by (simp add: chatStream_streamed)
  have "steps ?t0 = spec_steps []" by (simp add: turn_start_def spec_steps_Nil)
  from for_await_plain[OF assms(1) this] obtain t1' where
    a: "for_await evs ?t0 = (t1', None)" "trace t1' = trace ?t0 @ evs"
       "assistantContent t1' = assistantContent ?t0" "responseData t1' = responseData ?t0"
       "procTime t1' = procTime ?t0"
    by blast
  from chunk_step_terminal_chunk[of "text" ms "t1'"] obtain t2' where
    b: "chunk_step (terminal_chunk text ms) t1' = (t2', None)" "trace t2' = trace t1'"
       "assistantContent t2' = Some (JStr text)" "responseData t2' = responseData t1'"
       "procTime t2' = (if ms = 0 then procTime t1' else Some (JNum ms))"
    by blast
  have fa: "for_await (evs @ [terminal_chunk text ms]) ?t0 = (t2', None)"
    using a(1) b(1) by (simp add: for_await_append)
  have rs: "run_stream (chatStream p (streamed chunks StreamDone)) ?t0 = (t2', None)"
    using cs fa by (simp add: run_stream_def)
  have am: "assistantMessage t1 t2' =
              \<lparr> msg_id = t1 + 1, role = assistant, content = Some (JStr text),
                timestamp = t1, data = Some JNull, executionTrace = Some evs,
                processingTime = Some (JNum ms) \<rparr>"
    using a(2-5) b(2-5) assms(2)
    by (simp add: assistantMessage_def or_default_def turn_start_def)
  have "http_turn p t0 t1 chunks txt st =
           st\<lparr> messages := messages st @ [userMessage t0 txt, assistantMessage t1 t2'],
               isLoading := False, currentSteps := [], conversationId := convId t2' \<rparr>"
    using assms(3,4) by (simp add: http_turn_def sendMessage_def Let_def rs)
  then show ?thesis unfolding am by blast
qed

lemma ws_turn_steps:
  assumes "\<forall>e\<in>set evs. is_step e" "trim txt \<noteq> []" "\<not> isLoading ws" "socket ws \<noteq> None"
    and "map (\<lambda>(now, m). p m) stepmsgs = map (\<lambda>e. Some (step_envelope e)) evs"
  shows "ws_turn p t0 txt cid stepmsgs ws =
           ws\<lparr> messages := messages ws @ [userMessage t0 txt], isLoading := True,
               currentSteps := spec_steps evs \<rparr>"
proof -
  let ?w1 = "ws\<lparr> messages := messages ws @ [userMessage t0 txt], isLoading := True,
                currentSteps := [] \<rparr>"
  have s: "fst (ws_sendMessage t0 txt cid ws) = ?w1"
    using assms(2-4)
    by (auto simp: ws_sendMessage_def Let_def split: option.splits ready_state.splits)
  have "currentSteps ?w1 = spec_steps []" by (simp add: spec_steps_Nil)
  from ws_receive_steps[of p stepmsgs evs ?w1 "[]"] assms(5) assms(1) this
  show ?thesis by (simp add: ws_turn_def s)
qed


text \<open>
  Claim C1, as the code has it. For a logical event sequence (plain step events, then a
  terminal payload with non-empty text) carried by each transport, the two reducers hold
  the same per-agent step list once the steps are in, both end the turn with the step
  list cleared and the loading flag down, and both append one assistant message with the
  same content, data and processing time. The execution trace is not the same: the HTTP
  reducer attaches the steps it received, the socket dispatcher attaches none.
\<close>

theorem transports_agree_except_trace:
  assumes "\<forall>e\<in>set evs. is_plain_step e" and "final_text \<noteq> []"
    and "trim txt \<noteq> []" and "\<not> isLoading st" and "\<not> isLoading ws" and "socket ws \<noteq> None"
    and "\<forall>l\<in>set ls. CHR 0x0A \<notin> set l" and "concat chunks = serialize ls"
    and "map (parse_line p) ls = map (\<lambda>e. [e]) (evs @ [terminal_chunk final_text ms])"
    and "map (\<lambda>(now, m). p m) stepmsgs = map (\<lambda>e. Some (step_envelope e)) evs"
    and "p lastmsg = Some (response_envelope final_text ms)"
  shows "steps (fst (for_await evs (turn_start (conversationId st)))) =
           currentSteps (ws_turn p t0 txt cid stepmsgs ws)
       \<and> currentSteps (http_turn p t0 t1 chunks txt st) = []
       \<and> currentSteps (ws_turn p t0 txt cid (stepmsgs @ [(t2, lastmsg)]) ws) = []
       \<and> \<not> isLoading (http_turn p t0 t1 chunks txt st)
       \<and> \<not> isLoading (ws_turn p t0 txt cid (stepmsgs @ [(t2, lastmsg)]) ws)
       \<and> (\<exists>mh mw.
             messages (http_turn p t0 t1 chunks txt st) = messages st @ [userMessage t0 txt, mh]
           \<and> messages (ws_turn p t0 txt cid (stepmsgs @ [(t2, lastmsg)]) ws) =
               messages ws @ [userMessage t0 txt, mw]
           \<and> role mh = assistant \<and> role mw = assistant
           \<and> content mh = Some (JStr final_text) \<and> content mw = Some (JStr final_text)
           \<and> data mh = Some JNull \<and> data mw = Some JNull
           \<and> processingTime mh = Some (JNum ms) \<and> processingTime mw = Some (JNum ms)
           \<and> executionTrace mh = Some evs \<and> executionTrace mw = None)"
proof -
  have st: "\<forall>e\<in>set evs. is_step e" using assms(1) by (simp add: is_plain_step_def)
  from http_turn_result[OF assms(1,2,3,4,7,8,9), of t0 t1] obtain cid' where
    H: "http_turn p t0 t1 chunks txt st =
           st\<lparr> messages := messages st @
                  [userMessage t0 txt,
                   \<lparr> msg_id = t1 + 1, role = assistant, content = Some (JStr final_text),
                     timestamp = t1, data = Some JNull, executionTrace = Some evs,
                     processingTime = Some (JNum ms) \<rparr>],
               isLoading := False, currentSteps := [], conversationId := cid' \<rparr>"
    by blast
  have W1: "ws_turn p t0 txt cid stepmsgs ws =
           ws\<lparr> messages := messages ws @ [userMessage t0 txt], isLoading := True,
               currentSteps := spec_steps evs \<rparr>"
    using ws_turn_steps[OF st assms(3,5,6,10)] .
  have W: "ws_turn p t0 txt cid (stepmsgs @ [(t2, lastmsg)]) ws =
           ws\<lparr> messages := messages ws @
                  [userMessage t0 txt,
                   \<lparr> msg_id = t2, role = assistant, content = Some (JStr final_text),
                     timestamp = t2, data = Some JNull, executionTrace = None,
                     processingTime = Some (JNum ms) \<rparr>],
               isLoading := False, currentSteps := [] \<rparr>"
  proof -
    have "ws_turn p t0 txt cid (stepmsgs @ [(t2, lastmsg)]) ws =
            fst (ws_onmessage p t2 lastmsg (ws_turn p t0 txt cid stepmsgs ws))"
      by (simp add: ws_turn_def ws_receive_all_def)
    then show ?thesis
      using ws_onmessage_response[of p lastmsg final_text ms t2] assms(11) W1 by simp
  qed
  have A: "steps (fst (for_await evs (turn_start (conversationId st)))) =
           currentSteps (ws_turn p t0 txt cid stepmsgs ws)"
    using for_await_steps_start[OF st] W1 by simp
  show ?thesis
    unfolding A unfolding H W by simp
qed

theorem transports_agree_except_trace_witness:
  \<open>is_plain_step (JObj [(''agent'', JStr ''a''), (''status'', JStr ''running'')])
   \<and> is_plain_step (JObj [(''agent'', JStr ''a''), (''status'', JStr ''completed'')])
   \<and> steps (fst (for_await [JObj [(''agent'', JStr ''a''), (''status'', JStr ''running'')],
                             JObj [(''agent'', JStr ''a''), (''status'', JStr ''completed'')]]
                   (turn_start (Some JNull)))) =
       currentSteps (ws_turn JSON_parse_sample 1 ''ping'' None
         [(2, ''{"type":"step","data":{"agent":"a","status":"running"}}''),
          (3, ''{"type":"step","data":{"agent":"a","status":"completed"}}'')]
         \<lparr> messages = [], isLoading = False, currentSteps = [], isConnected = True,
           socket = Some OPEN \<rparr>)
   \<and> currentSteps (http_turn JSON_parse_sample 1 2
         [serialize [''data: {"agent":"a","status":"running"}'',
                     ''data: {"agent":"a","status":"completed"}'',
                     ''data: {"content":"pong","processing_time_ms":5}'']] ''ping''
         \<lparr> messages = [], isLoading = False, currentSteps = [], conversationId = Some JNull \<rparr>) = []
   \<and> \<not> isLoading (ws_turn JSON_parse_sample 1 ''ping'' None
         ([(2, ''{"type":"step","data":{"agent":"a","status":"running"}}''),
           (3, ''{"type":"step","data":{"agent":"a","status":"completed"}}'')] @
          [(4, ''{"type":"response","data":{"message":"pong","data":null,"processing_time_ms":5}}'')])
         \<lparr> messages = [], isLoading = False, currentSteps = [], isConnected = True,
           socket = Some OPEN \<rparr>)\<close>
proof -
  let ?e1 = "JObj [(''agent'', JStr ''a''), (''status'', JStr ''running'')]"
  let ?e2 = "JObj [(''agent'', JStr ''a''), (''status'', JStr ''completed'')]"
  let ?st = "\<lparr> messages = [], isLoading = False, currentSteps = [], conversationId = Some JNull \<rparr>"
  let ?ws = "\<lparr> messages = [], isLoading = False, currentSteps = [], isConnected = True,
           socket = Some OPEN \<rparr>"
  let ?ls = \<open>[''data: {"agent":"a","status":"running"}'',
              ''data: {"agent":"a","status":"completed"}'',
              ''data: {"content":"pong","processing_time_ms":5}'']\<close>
  let ?sm = \<open>[(2::int, ''{"type":"step","data":{"agent":"a","status":"running"}}''),
              (3, ''{"type":"step","data":{"agent":"a","status":"completed"}}'')]\<close>
  let ?lm = \<open>''{"type":"response","data":{"message":"pong","data":null,"processing_time_ms":5}}''\<close>
  have h1: "\<forall>e\<in>set [?e1, ?e2]. is_plain_step e" by code_simp
  have h2: "''pong'' \<noteq> []" by simp
  have h3: "trim ''ping'' \<noteq> []" by code_simp
  have h4: "\<not> isLoading ?st" by simp
  have h5: "\<not> isLoading ?ws" by simp
  have h6: "socket ?ws \<noteq> None" by simp
  have h7: "\<forall>l\<in>set ?ls. CHR 0x0A \<notin> set l" by code_simp
  have h8: "concat [serialize ?ls] = serialize ?ls" by simp
  have h9: "map (parse_line JSON_parse_sample) ?ls =
              map (\<lambda>e. [e]) ([?e1, ?e2] @ [terminal_chunk ''pong'' 5])" by code_simp
  have h10: "map (\<lambda>(now, m). JSON_parse_sample m) ?sm =
               map (\<lambda>e. Some (step_envelope e)) [?e1, ?e2]" by code_simp
  have h11: "JSON_parse_sample ?lm = Some (response_envelope ''pong'' 5)" by code_simp
  note main = transports_agree_except_trace[OF h1 h2 h3 h4 h5 h6 h7 h8 h9 h10 h11, of 1 None 2 4]
  have A: "steps (fst (for_await [?e1, ?e2] (turn_start (Some JNull)))) =
       currentSteps (ws_turn JSON_parse_sample 1 ''ping'' None ?sm ?ws)"
    using main by simp
  have B: "currentSteps (http_turn JSON_parse_sample 1 2 [serialize ?ls] ''ping'' ?st) = []"
    using main by blast
  have C: "\<not> isLoading (ws_turn JSON_parse_sample 1 ''ping'' None (?sm @ [(4, ?lm)]) ?ws)"
    using main by blast
  show ?thesis using h1 A B C by simp
qed

text \<open>
  Claim C1, as stated, fails: two step events and the terminal payload "pong" are replayed
  through both transports. The assistant message of the HTTP reducer carries the two
  steps as its execution trace; that of the socket dispatcher carries no trace.
\<close>

theorem transports_differ_counterexample:
  \<open>map executionTrace (messages (http_turn JSON_parse_sample 1 2
        [''data: {"agent":"a","status":"running"}'' @ [CHR 0x0A] @
         ''data: {"agent":"a","status":"completed"}'' @ [CHR 0x0A] @
         ''data: {"content":"pong","processing_time_ms":5}'' @ [CHR 0x0A]] ''ping''
        \<lparr> messages = [], isLoading = False, currentSteps = [], conversationId = Some JNull \<rparr>)) =
     [None, Some [JObj [(''agent'', JStr ''a''), (''status'', JStr ''running'')],
                  JObj [(''agent'', JStr ''a''), (''status'', JStr ''completed'')]]]
   \<and> map executionTrace (messages (ws_turn JSON_parse_sample 1 ''ping'' None
        [(2, ''{"type":"step","data":{"agent":"a","status":"running"}}''),
         (3, ''{"type":"step","data":{"agent":"a","status":"completed"}}''),
         (4, ''{"type":"response","data":{"message":"pong","data":null,"processing_time_ms":5}}'')]
        \<lparr> messages = [], isLoading = False, currentSteps = [], isConnected = True,
          socket = Some OPEN \<rparr>)) =
     [None, None]\<close>
  by code_simp

section \<open>Payloads that parse but are no event\<close>

text \<open>
  A line whose payload is well-formed JSON is yielded by \<^verbatim>\<open>chatStream\<close>, whatever the
  value. The value \<^verbatim>\<open>null\<close> then makes the first property read of \<^verbatim>\<open>useChat\<close>'s loop
  throw, outside any \<^verbatim>\<open>try\<close> of the loop: the turn ends through the \<^verbatim>\<open>catch\<close> block
  of \<^verbatim>\<open>sendMessage\<close>. The home page and the socket dispatcher read the value inside their
  \<^verbatim>\<open>try\<close> and go on.
\<close>

lemma null_chunk_ends_useChat_turn: "chunk_step JNull t = (t, Some TypeError)"
  by (simp add: chunk_step_def)

lemma null_data_is_skipped_by_page: "page_data JNull t = t"
  by (simp add: page_data_def)

lemma null_message_is_skipped_by_socket:
  "p m = Some JNull \<Longrightarrow> ws_onmessage p now m st = (st, [ConsoleError])"
  by (simp add: ws_onmessage_def)

lemma for_await_null: "JNull \<in> set cs \<Longrightarrow> snd (for_await cs t) \<noteq> None"
proof (induction cs arbitrary: t)
  case Nil
  then show ?case by simp
next
  case (Cons c cs)
  obtain t' x where st: "chunk_step c t = (t', x)" by (cases "chunk_step c t")
  show ?case
  proof (cases x)
    case (Some e)
    with st show ?thesis by simp
  next
    case None
    with st have "c \<noteq> JNull" by (auto simp: null_chunk_ends_useChat_turn)
    with Cons.prems have "JNull \<in> set cs" by simp
    from Cons.IH[OF this, of t'] st None show ?thesis by simp
  qed
qed

lemma null_line_ends_useChat_turn:
  assumes "trim txt \<noteq> []" "\<not> isLoading st" "JNull \<in> set (fst (chatStream p r))"
  shows "snd (snd (sendMessage p t0 t1 r txt st)) \<noteq> None \<and>
         messages (fst (sendMessage p t0 t1 r txt st)) = messages st @ [userMessage t0 txt]"
proof -
  obtain t x where rs: "run_stream (chatStream p r) (turn_start (conversationId st)) = (t, x)"
    by (cases "run_stream (chatStream p r) (turn_start (conversationId st))")
  obtain t' y where fa: "for_await (fst (chatStream p r)) (turn_start (conversationId st)) = (t', y)"
    by (cases "for_await (fst (chatStream p r)) (turn_start (conversationId st))")
  from for_await_null[OF assms(3), of "turn_start (conversationId st)"] fa
  obtain e where "y = Some e" by auto
  with fa rs have "x = Some e" by (simp add: run_stream_def)
  with rs assms(1,2) show ?thesis by (simp add: sendMessage_def Let_def)
qed

text \<open>
  Claim C6 on \<^verbatim>\<open>useChat\<close>. The stream is a step event, the line \<^verbatim>\<open>data: null\<close> and the
  terminal payload "pong". \<^verbatim>\<open>sendMessage\<close> applies the step, then ends the turn at the bad
  line with a TypeError handed to \<^verbatim>\<open>onError\<close>: the terminal payload is never applied and
  no assistant message is appended, where the same stream without the line ends with the
  message "pong". On the same stream the home page appends "pong", and so does the
  socket dispatcher when the bad unit arrives as a message between the two others.
\<close>

theorem null_line_aborts_useChat_turn:
  \<open>snd (sendMessage JSON_parse_sample 1 2
        (streamed [serialize [''data: {"agent":"a","status":"running"}'',
                              ''data: null'',
                              ''data: {"content":"pong","processing_time_ms":5}'']] StreamDone)
        ''ping''
        \<lparr> messages = [], isLoading = False, currentSteps = [], conversationId = Some JNull \<rparr>) =
     ([FetchStream (Some (JStr ''ping'')) None,
       OnStepUpdate (JObj [(''agent'', JStr ''a''), (''status'', JStr ''running'')]),
       OnError TypeError], Some TypeError)
   \<and> map content (messages (http_turn JSON_parse_sample 1 2
        [serialize [''data: {"agent":"a","status":"running"}'',
                    ''data: null'',
                    ''data: {"content":"pong","processing_time_ms":5}'']] ''ping''
        \<lparr> messages = [], isLoading = False, currentSteps = [], conversationId = Some JNull \<rparr>)) =
     [Some (JStr ''ping'')]
   \<and> map content (messages (http_turn JSON_parse_sample 1 2
        [serialize [''data: {"agent":"a","status":"running"}'',
                    ''data: {"content":"pong","processing_time_ms":5}'']] ''ping''
        \<lparr> messages = [], isLoading = False, currentSteps = [], conversationId = Some JNull \<rparr>)) =
     [Some (JStr ''ping''), Some (JStr ''pong'')]
   \<and> map content (messages (fst (handleSubmit JSON_parse_sample 1 2
        (streamed [serialize [''data: {"agent":"a","status":"running"}'',
                              ''data: null'',
                              ''data: {"content":"pong","processing_time_ms":5}'']] StreamDone)
        \<lparr> messages = [], isLoading = False, currentSteps = [], input = ''ping'',
          showDataViewer = False, currentData = None \<rparr>))) =
     [Some (JStr ''ping''), Some (JStr ''pong'')]
   \<and> map content (messages (ws_turn JSON_parse_sample 1 ''ping'' None
        [(2, ''{"type":"step","data":{"agent":"a","status":"running"}}''),
         (3, ''null''),
         (4, ''{"type":"response","data":{"message":"pong","data":null,"processing_time_ms":5}}'')]
        \<lparr> messages = [], isLoading = False, currentSteps = [], isConnected = True,
          socket = Some OPEN \<rparr>)) =
     [Some (JStr ''ping''), Some (JStr ''pong'')]\<close>
  by code_simp

section \<open>An answer whose body is null\<close>

text \<open>
  When the updater that reads \<^verbatim>\<open>result.job_id\<close> throws, neither flow reaches its
  \<^verbatim>\<open>catch\<close> block: the file is still shown as uploading and its completion timer is set.
\<close>

lemma updater_throws_iff: "updater_throws reply \<longleftrightarrow> reply = Inr (True, Some JNull)"
proof (cases reply)
  case (Inl e)
  then show ?thesis by (simp add: updater_throws_def)
next
  case (Inr x)
  obtain response_ok result where x: "x = (response_ok, result)" by (cases x)
  show ?thesis
  proof (cases result)
    case None
    with Inr x show ?thesis by (cases response_ok) (simp_all add: updater_throws_def)
  next
    case (Some res)
    with Inr x show ?thesis
      by (cases response_ok; cases res) (simp_all add: updater_throws_def)
  qed
qed

lemma modal_updater_throws_leaves_uploading:
  assumes "UploadedFile.status uploadFile = pending" "updater_throws (net uploadFile)"
    and "f \<in> set (files (modal_upload_one net uploadFile run))" "file_id f = file_id uploadFile"
  shows "UploadedFile.status f = uploading \<and>
         timers (modal_upload_one net uploadFile run) = timers run @ [file_id uploadFile]"
  using assms
  by (auto simp: modal_upload_one_def updater_throws_iff update_file_def Let_def)

lemma inline_updater_throws_leaves_uploading:
  assumes "UploadedFile.status uploadFile = pending" "updater_throws (snd (snd (net uploadFile)))"
    and "f \<in> set (files (inline_upload_one net uploadFile run))" "file_id f = file_id uploadFile"
  shows "UploadedFile.status f = uploading \<and>
         timers (inline_upload_one net uploadFile run) = timers run @ [file_id uploadFile]"
proof -
  have tick: "\<forall>g\<in>set fs. P g \<longrightarrow> UploadedFile.status g = uploading \<Longrightarrow>
      \<forall>g\<in>set ((progress_tick i ^^ n) fs). P g \<longrightarrow> UploadedFile.status g = uploading"
    if "\<And>g. P (g\<lparr> progress := progress g + 10 \<rparr>) = P g" for fs n i and P :: "UploadedFile \<Rightarrow> bool"
  proof (induction n)
    case 0
    then show ?case by simp
  next
    case (Suc n)
    then show ?case using that by (auto simp: progress_tick_def)
  qed
  obtain n m reply where net: "net uploadFile = (n, m, reply)" by (cases "net uploadFile") auto
  let ?i = "file_id uploadFile"
  let ?fs1 = "update_file ?i (\<lambda>f. f\<lparr> status := uploading, progress := 0 \<rparr>) (files run)"
  have a: "\<forall>g\<in>set ?fs1. file_id g = ?i \<longrightarrow> UploadedFile.status g = uploading"
    by (auto simp: update_file_def)
  have b: "\<forall>g\<in>set ((progress_tick ?i ^^ n) ?fs1). file_id g = ?i \<longrightarrow> UploadedFile.status g = uploading"
    by (rule tick[OF _ a]) simp
  from assms(2) net have r: "reply = Inr (True, Some JNull)"
    by (simp add: updater_throws_iff)
  have R: "inline_upload_one net uploadFile run =
             run\<lparr> files := (progress_tick ?i ^^ n) ?fs1, timers := timers run @ [?i] \<rparr>"
    using assms(1) net r by (simp add: inline_upload_one_def Let_def)
  show ?thesis using assms(3,4) b unfolding R by auto
qed

section \<open>A step message without a step\<close>

text \<open>
  The socket dispatcher hands \<^verbatim>\<open>data.data\<close> to the step updater unchecked. When it is
  \<^verbatim>\<open>null\<close> and the list is empty, the callbacks never run and \<^verbatim>\<open>null\<close> is appended; when
  the list holds an object, the read of \<^verbatim>\<open>data.data.agent\<close> throws inside the updater,
  which the \<^verbatim>\<open>catch\<close> of the handler does not see.
\<close>

lemma ws_null_step_on_empty_list:
  assumes "p m = Some (JObj [(''type'', JStr ''step''), (''data'', JNull)])" "currentSteps st = []"
  shows "ws_onmessage p now m st = (st\<lparr> currentSteps := [Some JNull] \<rparr>, [])"
  using assms by (simp add: ws_onmessage_def upsert_step_def Let_def)

lemma ws_null_step_throws_in_updater:
  assumes "p m = Some (JObj [(''type'', JStr ''step''), (''data'', JNull)])"
    and "currentSteps st = Some (JObj kvs) # ss"
  shows "ws_onmessage p now m st = (st, [RenderError TypeError])"
  using assms by (simp add: ws_onmessage_def upsert_step_def Let_def)

end
